theory Spec2Isabelle
  imports Main "HOL-Library.Sublist" "HOL-Library.Multiset"
begin

section \<open>Scrubbing deleted core document versions\<close>

text \<open>
  The development embeds the check \<^verbatim>\<open>scrubDeletedCoreDocumentVersionsCheck\<close> and its
  worker \<^verbatim>\<open>scrubDocument\<close>. The two stores the code talks to (the relational metadata
  store and the bucket of blobs) are fields of an explicit state, together with the
  variables the run shares between its units (\<^verbatim>\<open>seen\<close>, \<^verbatim>\<open>deletedCount\<close>).

  The code is asynchronous. A call of \<^verbatim>\<open>scrubDocument\<close> runs without interruption
  up to its next \<^verbatim>\<open>await\<close>; between two awaits other units of the same chunk may run.
  A unit is therefore a small machine: its program counter names the \<^verbatim>\<open>await\<close> it is
  suspended at, and one step completes the awaited call and runs the code up to the
  next \<^verbatim>\<open>await\<close>. \<^verbatim>\<open>Promise.all\<close> over a chunk starts every unit (each runs to its first
  \<^verbatim>\<open>await\<close>), and then the units are resumed in the order in which their calls
  complete, which is a parameter of the model (a schedule).
\<close>

subsection \<open>Rows, configuration, errors\<close>

datatype jsval = Num int | Str string

text \<open>A row of \<^verbatim>\<open>data_sources_documents\<close>; \<open>row_id\<close> is the column \<^verbatim>\<open>id\<close>.\<close>

record document_row =
  row_id :: int
  created :: int
  data_source :: int
  document_id :: string
  hash :: string
  status :: string

text \<open>A row of \<^verbatim>\<open>data_sources\<close>; \<open>ds_id\<close> is the column \<^verbatim>\<open>id\<close>.\<close>

record data_source_row =
  ds_id :: int
  project :: int
  internal_id :: string

text \<open>The external calls a unit awaits, and the one the run awaits first.\<close>

datatype io_call =
    Io_list_deleted
  | Io_more_recent
  | Io_data_source
  | Io_get_files
  | Io_file_delete string
  | Io_purge

datatype error =
    Env_not_defined string
  | Data_source_not_found int
  | Io_failure io_call

text \<open>
  The three environment variables read at module level, and the two things the file
  takes from outside: the \<^verbatim>\<open>blake3\<close> digest (hex) and whether an external call
  made on behalf of a candidate row throws.
\<close>

record config =
  CORE_DATABASE_URI :: "string option"
  SERVICE_ACCOUNT :: "string option"
  DUST_DATA_SOURCES_BUCKET :: "string option"
  blake3_hex :: "string \<Rightarrow> string"
  fetch_fails :: bool
  io_fails :: "document_row \<Rightarrow> io_call \<Rightarrow> bool"

text \<open>\<^verbatim>\<open>!X\<close> on a value that is a string or undefined.\<close>

definition falsy :: "string option \<Rightarrow> bool" where
  "falsy v = (case v of None \<Rightarrow> True | Some s \<Rightarrow> s = [])"

subsection \<open>Calls made, log lines, state\<close>

datatype event =
    Query_deleted_documents
  | Query_more_recent int string string int
  | Query_data_source int
  | Get_files string
  | File_delete string
  | File_delete_settled string bool
  | Purge int string string
  | Report_success "(string \<times> jsval) list"

type_synonym log_line = "string \<times> (string \<times> jsval) list"

type_synonym outcome = "error + bool"

record state =
  documents :: "document_row list"
  data_sources :: "data_source_row list"
  bucket :: "string list"
  seen :: "string set"
  deletedCount :: nat
  rejection :: "error option"
  outcomes :: "(document_row \<times> outcome) list"
  trace :: "event list"
  logs :: "log_line list"

text \<open>
  \<open>documents\<close>, \<open>data_sources\<close> and \<open>bucket\<close> (the names of the objects) are the stores.
  \<open>seen\<close> and \<open>deletedCount\<close> are the run's variables. \<open>trace\<close> lists the external
  calls in the order they are issued (and, for a blob delete, also when it settles),
  \<open>logs\<close> the calls of \<^verbatim>\<open>logger.info\<close>. \<open>outcomes\<close> lists how each call of
  \<^verbatim>\<open>scrubDocument\<close> made by the run settled, and \<open>rejection\<close> is the reason
  \<^verbatim>\<open>Promise.all\<close> rejected with: the first rejection among its units.
\<close>

subsection \<open>Template literals\<close>

definition digit_char :: "nat \<Rightarrow> char" where
  "digit_char d = ''0123456789'' ! d"

fun show_nat :: "nat \<Rightarrow> string" where
  "show_nat n = (if n < 10 then [digit_char n] else show_nat (n div 10) @ [digit_char (n mod 10)])"

declare show_nat.simps [simp del]

definition show_int :: "int \<Rightarrow> string" where
  "show_int i = (if i < 0 then CHR ''-'' # show_nat (nat (- i)) else show_nat (nat i))"

text \<open>Line 265: \<^verbatim>\<open>`${data_source}-${document_id}-${hash}`\<close>.\<close>

definition uid :: "document_row \<Rightarrow> string" where
  "uid r = show_int (data_source r) @ ''-'' @ document_id r @ ''-'' @ hash r"

text \<open>Line 310: \<^verbatim>\<open>`${dataSource.project}/${dataSource.internal_id}/${documentIdHash}/${hash}`\<close>.\<close>

definition path :: "config \<Rightarrow> data_source_row \<Rightarrow> document_row \<Rightarrow> string" where
  "path cfg s r =
     show_int (project s) @ ''/'' @ internal_id s @ ''/'' @ blake3_hex cfg (document_id r) @ ''/'' @ hash r"

subsection \<open>The queries\<close>

definition same_version :: "document_row \<Rightarrow> document_row \<Rightarrow> bool" where
  "same_version r d \<longleftrightarrow>
     data_source d = data_source r \<and> document_id d = document_id r \<and> hash d = hash r"

text \<open>Line 271, with \<^verbatim>\<open>LIMIT 1\<close>.\<close>

definition moreRecentSameHash :: "document_row list \<Rightarrow> document_row \<Rightarrow> document_row list" where
  "moreRecentSameHash docs r =
     take 1 (filter (\<lambda>d. same_version r d \<and> status d \<noteq> ''deleted'' \<and> created r \<le> created d) docs)"

text \<open>Line 288.\<close>

definition dataSourceData :: "data_source_row list \<Rightarrow> document_row \<Rightarrow> data_source_row list" where
  "dataSourceData srcs r = filter (\<lambda>s. ds_id s = data_source r) srcs"

text \<open>Line 336.\<close>

definition purge :: "document_row \<Rightarrow> document_row list \<Rightarrow> document_row list" where
  "purge r docs = filter (\<lambda>d. \<not> (same_version r d \<and> status d = ''deleted'')) docs"

text \<open>Line 314: the objects whose name starts with the prefix.\<close>

definition getFiles :: "string list \<Rightarrow> string \<Rightarrow> string list" where
  "getFiles objs p = filter (prefix p) objs"

subsection \<open>One unit: \<^verbatim>\<open>scrubDocument\<close>\<close>

datatype pc =
    Await_more_recent
  | Await_data_source
  | Await_files data_source_row
  | Await_deletes data_source_row "string list" "string list"
  | Await_purge data_source_row "string list"
  | Resolved bool
  | Rejected error

definition emit :: "event list \<Rightarrow> state \<Rightarrow> state" where
  "emit evs st = st\<lparr>trace := trace st @ evs\<rparr>"

definition logger_info :: "log_line list \<Rightarrow> state \<Rightarrow> state" where
  "logger_info ls st = st\<lparr>logs := logs st @ ls\<rparr>"

text \<open>Lines 257 to 280: from the call to the first \<^verbatim>\<open>await\<close>.\<close>

definition scrubDocument_start :: "config \<Rightarrow> document_row \<Rightarrow> state \<Rightarrow> pc \<times> state" where
  "scrubDocument_start cfg r st =
     (if falsy (DUST_DATA_SOURCES_BUCKET cfg) then
        (Rejected (Env_not_defined ''DUST_DATA_SOURCES_BUCKET''), st)
      else if falsy (SERVICE_ACCOUNT cfg) then
        (Rejected (Env_not_defined ''SERVICE_ACCOUNT''), st)
      else if uid r \<in> seen st then (Resolved False, st)
      else (Await_more_recent,
            emit [Query_more_recent (data_source r) (document_id r) (hash r) (created r)] st))"

definition scrubbing_line :: "data_source_row \<Rightarrow> document_row \<Rightarrow> string \<Rightarrow> log_line" where
  "scrubbing_line s r f =
     (''Scrubbing'',
      [(''path'', Str f), (''documentId'', Str (document_id r)), (''documentHash'', Str (hash r)),
       (''dataSourceProject'', Num (project s)), (''dataSourceInternalId'', Str (internal_id s)),
       (''dataSourceId'', Num (ds_id s))])"

definition scrubbed_line :: "data_source_row \<Rightarrow> document_row \<Rightarrow> string list \<Rightarrow> log_line" where
  "scrubbed_line s r files =
     (''Scrubbed deleted versions'',
      [(''documentId'', Str (document_id r)), (''documentHash'', Str (hash r)),
       (''dataSourceProject'', Num (project s)), (''dataSourceInternalId'', Str (internal_id s)),
       (''dataSourceId'', Num (ds_id s)), (''filesCount'', Num (int (length files)))])"

text \<open>
  One step of a suspended unit: the awaited call completes (or throws), and the code
  runs up to the next \<^verbatim>\<open>await\<close> or to the end. A settled unit does not move.

  The deletes of a unit (lines 318 to 333) are issued together, one for each listed
  object that is not marked seen, and awaited together. The step that settles them
  removes the object of every delete that does not throw; when one of them throws, the
  call rejects with it and the purge is never issued.
\<close>

fun resume :: "config \<Rightarrow> document_row \<Rightarrow> pc \<Rightarrow> state \<Rightarrow> pc \<times> state" where
  "resume cfg r Await_more_recent st =
     (if io_fails cfg r Io_more_recent then (Rejected (Io_failure Io_more_recent), st)
      else if 0 < length (moreRecentSameHash (documents st) r) then (Resolved False, st)
      else (Await_data_source, emit [Query_data_source (data_source r)] st))"
| "resume cfg r Await_data_source st =
     (if io_fails cfg r Io_data_source then (Rejected (Io_failure Io_data_source), st)
      else case dataSourceData (data_sources st) r of
             [] \<Rightarrow> (Rejected (Data_source_not_found (data_source r)), st)
           | s # _ \<Rightarrow> (Await_files s, emit [Get_files (path cfg s r)] st))"
| "resume cfg r (Await_files s) st =
     (if io_fails cfg r Io_get_files then (Rejected (Io_failure Io_get_files), st)
      else let files = getFiles (bucket st) (path cfg s r);
               dels = filter (\<lambda>f. f \<notin> seen st) files
           in (Await_deletes s files dels,
               emit (map File_delete dels) (logger_info (map (scrubbing_line s r) dels) st)))"
| "resume cfg r (Await_deletes s files dels) st =
     (let gone = filter (\<lambda>f. \<not> io_fails cfg r (Io_file_delete f)) dels;
          st1 = emit (map (\<lambda>f. File_delete_settled f (\<not> io_fails cfg r (Io_file_delete f))) dels)
                  (st\<lparr>bucket := filter (\<lambda>f. f \<notin> set gone) (bucket st)\<rparr>)
      in case filter (\<lambda>f. io_fails cfg r (Io_file_delete f)) dels of
           f # _ \<Rightarrow> (Rejected (Io_failure (Io_file_delete f)), st1)
         | [] \<Rightarrow> (Await_purge s files,
                  emit [Purge (data_source r) (document_id r) (hash r)] st1))"
| "resume cfg r (Await_purge s files) st =
     (if io_fails cfg r Io_purge then (Rejected (Io_failure Io_purge), st)
      else (Resolved True,
            (logger_info [scrubbed_line s r files] (st\<lparr>documents := purge r (documents st)\<rparr>))
              \<lparr>seen := insert (uid r) (seen st \<union> set files)\<rparr>))"
| "resume cfg r (Resolved b) st = (Resolved b, st)"
| "resume cfg r (Rejected e) st = (Rejected e, st)"

definition resume' :: "config \<Rightarrow> document_row \<Rightarrow> pc \<times> state \<Rightarrow> pc \<times> state" where
  "resume' cfg r p = resume cfg r (fst p) (snd p)"

fun result :: "pc \<Rightarrow> outcome option" where
  "result (Resolved b) = Some (Inr b)"
| "result (Rejected e) = Some (Inl e)"
| "result _ = None"

text \<open>
  The whole call when nothing else runs in between: a unit is suspended at most five
  times (lines 270, 287, 314, 318, 335).
\<close>

definition scrubDocument_pc :: "config \<Rightarrow> document_row \<Rightarrow> state \<Rightarrow> pc \<times> state" where
  "scrubDocument_pc cfg r st =
     resume' cfg r (resume' cfg r (resume' cfg r (resume' cfg r (resume' cfg r
       (scrubDocument_start cfg r st)))))"

definition scrubDocument :: "config \<Rightarrow> document_row \<Rightarrow> state \<Rightarrow> outcome option \<times> state" where
  "scrubDocument cfg r st = (let (p, st') = scrubDocument_pc cfg r st in (result p, st'))"

subsection \<open>A chunk: \<^verbatim>\<open>Promise.all\<close> over its units\<close>

type_synonym task = "document_row \<times> pc"

text \<open>
  Lines 223 to 236, the wrapper around each call: when the call settles, its outcome is
  known; \<^verbatim>\<open>deletedCount\<close> is incremented when it resolved to \<^verbatim>\<open>true\<close>; a rejection
  rejects the wrapper, and the first of them is what \<^verbatim>\<open>Promise.all\<close> rejects with.
\<close>

definition settle :: "document_row \<Rightarrow> pc \<Rightarrow> state \<Rightarrow> state" where
  "settle r p st =
     (case p of
        Resolved b \<Rightarrow>
          st\<lparr>outcomes := outcomes st @ [(r, Inr b)],
             deletedCount := (if b then Suc (deletedCount st) else deletedCount st)\<rparr>
      | Rejected e \<Rightarrow>
          st\<lparr>outcomes := outcomes st @ [(r, Inl e)],
             rejection := (case rejection st of None \<Rightarrow> Some e | Some e0 \<Rightarrow> Some e0)\<rparr>
      | _ \<Rightarrow> st)"

definition pending :: "pc \<Rightarrow> bool" where
  "pending p \<longleftrightarrow> result p = None"

definition start_unit :: "config \<Rightarrow> document_row \<Rightarrow> state \<Rightarrow> task \<times> state" where
  "start_unit cfg r st =
     (let (p, st1) = scrubDocument_start cfg r st in ((r, p), settle r p st1))"

text \<open>\<^verbatim>\<open>chunk.map\<close> calls every unit in turn; each runs to its first \<^verbatim>\<open>await\<close>.\<close>

fun start_all :: "config \<Rightarrow> document_row list \<Rightarrow> state \<Rightarrow> task list \<times> state" where
  "start_all cfg [] st = ([], st)"
| "start_all cfg (r # rs) st =
     (let (t, st1) = start_unit cfg r st;
          (ts, st2) = start_all cfg rs st1
      in (t # ts, st2))"

definition step_unit :: "config \<Rightarrow> task \<Rightarrow> state \<Rightarrow> task \<times> state" where
  "step_unit cfg t st =
     (if pending (snd t) then
        (let (p, st1) = resume cfg (fst t) (snd t) st in ((fst t, p), settle (fst t) p st1))
      else (t, st))"

text \<open>
  The schedule names, one after the other, the unit whose awaited call completes next.
  A name that is out of range or that of a settled unit is passed over.
\<close>

fun run_schedule :: "config \<Rightarrow> nat list \<Rightarrow> task list \<Rightarrow> state \<Rightarrow> task list \<times> state" where
  "run_schedule cfg [] ts st = (ts, st)"
| "run_schedule cfg (i # picks) ts st =
     (if i < length ts then
        (let (t, st1) = step_unit cfg (ts ! i) st in run_schedule cfg picks (ts[i := t]) st1)
      else run_schedule cfg picks ts st)"

text \<open>
  Nothing cancels a unit: when the schedule is used up, the units still suspended run
  to their end, in the order of the chunk. This also holds after one unit has
  rejected, which rejects \<^verbatim>\<open>Promise.all\<close> at once but leaves the others in flight.
\<close>

definition finish_unit :: "config \<Rightarrow> task \<Rightarrow> state \<Rightarrow> task \<times> state" where
  "finish_unit cfg t st =
     (let (t1, st1) = step_unit cfg t st;
          (t2, st2) = step_unit cfg t1 st1;
          (t3, st3) = step_unit cfg t2 st2;
          (t4, st4) = step_unit cfg t3 st3
      in step_unit cfg t4 st4)"

fun drain :: "config \<Rightarrow> task list \<Rightarrow> state \<Rightarrow> task list \<times> state" where
  "drain cfg [] st = ([], st)"
| "drain cfg (t # ts) st =
     (let (t', st1) = finish_unit cfg t st;
          (ts', st2) = drain cfg ts st1
      in (t' # ts', st2))"

definition promise_all :: "config \<Rightarrow> nat list \<Rightarrow> document_row list \<Rightarrow> state \<Rightarrow> task list \<times> state" where
  "promise_all cfg picks chunk st =
     (let (ts, st1) = start_all cfg chunk st;
          (ts', st2) = run_schedule cfg picks ts st1
      in drain cfg ts' st2)"

subsection \<open>The run: \<^verbatim>\<open>scrubDeletedCoreDocumentVersionsCheck\<close>\<close>

text \<open>Lines 207 to 210: slices of 32.\<close>

function chunked :: "'a list \<Rightarrow> 'a list list" where
  "chunked xs = (if xs = [] then [] else take 32 xs # chunked (drop 32 xs))"
  by pat_completeness auto
termination
  by (relation "measure length") auto

declare chunked.simps [simp del]

definition chunk_line :: "nat \<Rightarrow> nat \<Rightarrow> log_line" where
  "chunk_line i n = (''Processing chunk'', [(''chunkIndex'', Num (int i)), (''chunksCount'', Num (int n))])"

text \<open>
  Lines 215 to 239. The \<^verbatim>\<open>await\<close> of a rejected \<^verbatim>\<open>Promise.all\<close> throws, and nothing
  catches it: the loop ends there.
\<close>

fun process_chunks ::
  "config \<Rightarrow> (nat \<Rightarrow> nat list) \<Rightarrow> nat \<Rightarrow> nat \<Rightarrow> document_row list list \<Rightarrow> state \<Rightarrow> state" where
  "process_chunks cfg sched n i [] st = st"
| "process_chunks cfg sched n i (c # cs) st =
     (let st1 = snd (promise_all cfg (sched i) c (logger_info [chunk_line i n] st))
      in if rejection st1 = None then process_chunks cfg sched n (Suc i) cs st1 else st1)"

definition found_line :: "nat \<Rightarrow> log_line" where
  "found_line n = (''Found deleted core documents to scrub'', [(''documentCount'', Num (int n))])"

definition done_line :: "nat \<Rightarrow> log_line" where
  "done_line n = (''Done scrubbing deleted core document versions'', [(''deletedCount'', Num (int n))])"

text \<open>Line 192.\<close>

definition deletedDocuments :: "state \<Rightarrow> document_row list" where
  "deletedDocuments st = filter (\<lambda>d. status d = ''deleted'') (documents st)"

text \<open>
  The run starts with an empty record of calls, log lines and outcomes; \<open>sched i\<close> is
  the schedule of chunk \<open>i\<close>.
\<close>

definition scrubDeletedCoreDocumentVersionsCheck ::
  "config \<Rightarrow> (nat \<Rightarrow> nat list) \<Rightarrow> state \<Rightarrow> (error + unit) \<times> state" where
  "scrubDeletedCoreDocumentVersionsCheck cfg sched st0 =
     (let st = st0\<lparr>rejection := None, outcomes := [], trace := [], logs := []\<rparr> in
      if falsy (CORE_DATABASE_URI cfg) then (Inl (Env_not_defined ''CORE_DATABASE_URI''), st)
      else
        let st1 = emit [Query_deleted_documents] st in
        if fetch_fails cfg then (Inl (Io_failure Io_list_deleted), st1)
        else
          let cands = deletedDocuments st1;
              st2 = logger_info [found_line (length cands)] st1;
              chunks = chunked cands;
              st3 = process_chunks cfg sched (length chunks) 0 chunks
                      (st2\<lparr>seen := {}, deletedCount := 0\<rparr>)
          in case rejection st3 of
               Some e \<Rightarrow> (Inl e, st3)
             | None \<Rightarrow>
                 (Inr (), emit [Report_success []] (logger_info [done_line (deletedCount st3)] st3)))"

subsection \<open>Notions used in the proofs\<close>

text \<open>How many more times a unit can be suspended.\<close>

fun rank :: "pc \<Rightarrow> nat" where
  "rank Await_more_recent = 5"
| "rank Await_data_source = 4"
| "rank (Await_files s) = 3"
| "rank (Await_deletes s files dels) = 2"
| "rank (Await_purge s files) = 1"
| "rank (Resolved b) = 0"
| "rank (Rejected e) = 0"

text \<open>A property of the state that every move of a unit and every log line keeps.\<close>

definition preserved :: "config \<Rightarrow> (state \<Rightarrow> bool) \<Rightarrow> bool" where
  "preserved cfg P \<longleftrightarrow>
     (\<forall>r st. P st \<longrightarrow> P (snd (start_unit cfg r st))) \<and>
     (\<forall>t st. P st \<longrightarrow> P (snd (step_unit cfg t st))) \<and>
     (\<forall>l st. P st \<longrightarrow> P (logger_info l st))"

definition live :: "document_row \<Rightarrow> bool" where
  "live d \<longleftrightarrow> status d \<noteq> ''deleted''"

text \<open>\<^verbatim>\<open>deletedCount\<close> is the number of calls that resolved to \<^verbatim>\<open>true\<close>.\<close>

definition counted :: "state \<Rightarrow> bool" where
  "counted st \<longleftrightarrow> deletedCount st = length (filter (\<lambda>x. snd x = Inr True) (outcomes st))"

text \<open>As long as \<^verbatim>\<open>Promise.all\<close> has not rejected, no call has.\<close>

definition failure_rejects :: "state \<Rightarrow> bool" where
  "failure_rejects st \<longleftrightarrow> (rejection st = None \<longrightarrow> (\<forall>x\<in>set (outcomes st). \<exists>b. snd x = Inr b))"

text \<open>The key of every unit that resolved to \<^verbatim>\<open>true\<close> is marked seen.\<close>

definition true_seen :: "state \<Rightarrow> bool" where
  "true_seen st \<longleftrightarrow> (\<forall>x\<in>set (outcomes st). snd x = Inr True \<longrightarrow> uid (fst x) \<in> seen st)"

text \<open>The state in which the loop over the chunks starts, and the one in which it ends.\<close>

definition loop_start :: "state \<Rightarrow> state" where
  "loop_start st0 =
     (logger_info [found_line (length (deletedDocuments st0))]
        (emit [Query_deleted_documents] (st0\<lparr>rejection := None, outcomes := [], trace := [], logs := []\<rparr>)))
      \<lparr>seen := {}, deletedCount := 0\<rparr>"

definition loop_end :: "config \<Rightarrow> (nat \<Rightarrow> nat list) \<Rightarrow> state \<Rightarrow> state" where
  "loop_end cfg sched st0 =
     process_chunks cfg sched (length (chunked (deletedDocuments st0))) 0 (chunked (deletedDocuments st0))
       (loop_start st0)"

text \<open>The rows of the calls that have settled: in the state, and among the tasks of a chunk.\<close>

definition rows_of :: "state \<Rightarrow> document_row multiset" where
  "rows_of st = mset (map fst (outcomes st))"

definition row_if_settled :: "task \<Rightarrow> document_row multiset" where
  "row_if_settled t = (if pending (snd t) then {#} else {#fst t#})"

definition settled_rows :: "task list \<Rightarrow> document_row multiset" where
  "settled_rows ts = (\<Sum>t\<leftarrow>ts. row_if_settled t)"

text \<open>The bucket or the service account is missing, and the error the first check that fails throws.\<close>

definition unconfigured :: "config \<Rightarrow> bool" where
  "unconfigured cfg \<longleftrightarrow> falsy (DUST_DATA_SOURCES_BUCKET cfg) \<or> falsy (SERVICE_ACCOUNT cfg)"

definition env_error :: "config \<Rightarrow> error" where
  "env_error cfg =
     Env_not_defined (if falsy (DUST_DATA_SOURCES_BUCKET cfg) then ''DUST_DATA_SOURCES_BUCKET'' else ''SERVICE_ACCOUNT'')"

definition stores :: "state \<Rightarrow> document_row list \<times> data_source_row list \<times> string list" where
  "stores st = (documents st, data_sources st, bucket st)"

text \<open>
  A property of the state, together with one of the tasks of a chunk, that the moves of
  the units of the rows in \<open>C\<close> keep.
\<close>

definition preserved_on :: "config \<Rightarrow> document_row set \<Rightarrow> (task \<Rightarrow> bool) \<Rightarrow> (state \<Rightarrow> bool) \<Rightarrow> bool" where
  "preserved_on cfg C W P \<longleftrightarrow>
     (\<forall>r st. r \<in> C \<and> P st \<longrightarrow> W (fst (start_unit cfg r st)) \<and> P (snd (start_unit cfg r st))) \<and>
     (\<forall>t st. W t \<and> P st \<longrightarrow> W (fst (step_unit cfg t st)) \<and> P (snd (step_unit cfg t st))) \<and>
     (\<forall>l st. P st \<longrightarrow> P (logger_info l st))"

text \<open>
  A row is kept when the query of line 271 finds a live row for it, and gone when no
  deleted row of its version is left.
\<close>

definition kept :: "document_row list \<Rightarrow> document_row \<Rightarrow> bool" where
  "kept docs r \<longleftrightarrow> 0 < length (moreRecentSameHash docs r)"

definition gone :: "document_row list \<Rightarrow> document_row \<Rightarrow> bool" where
  "gone docs r \<longleftrightarrow> (\<forall>d\<in>set docs. same_version r d \<longrightarrow> status d \<noteq> ''deleted'')"

text \<open>The calls of a run that only looks: its queries for candidates and for live rows.\<close>

fun quiet :: "event \<Rightarrow> bool" where
  "quiet Query_deleted_documents = True"
| "quiet (Query_more_recent ds doc h c) = True"
| "quiet (Report_success p) = True"
| "quiet _ = False"

text \<open>A chunk in which every unit stops at the query for a live row.\<close>

definition idle_task :: "document_row list \<Rightarrow> task \<Rightarrow> bool" where
  "idle_task D t \<longleftrightarrow>
     kept D (fst t) \<and> (snd t = Await_more_recent \<or> snd t = Resolved False \<or> (\<exists>e. snd t = Rejected e))"

definition idle_state :: "document_row list \<Rightarrow> string list \<Rightarrow> state \<Rightarrow> bool" where
  "idle_state D B st \<longleftrightarrow>
     documents st = D \<and> bucket st = B \<and> (\<forall>x\<in>set (outcomes st). snd x \<noteq> Inr True) \<and>
     (\<forall>e\<in>set (trace st). quiet e)"

text \<open>
  The first separator of a string after an optional sign: \<^verbatim>\<open>-\<close> in a key (line 265),
  \<^verbatim>\<open>/\<close> in the name of an object listed under a path (line 310).
\<close>

fun unsigned :: "string \<Rightarrow> string" where
  "unsigned [] = []"
| "unsigned (c # cs) = (if c = CHR ''-'' then cs else c # cs)"

definition mark :: "string \<Rightarrow> char option" where
  "mark k = (case dropWhile (\<lambda>c. c \<noteq> CHR ''/'' \<and> c \<noteq> CHR ''-'') (unsigned k) of
               [] \<Rightarrow> None | c # _ \<Rightarrow> Some c)"

definition slashed :: "string \<Rightarrow> bool" where
  "slashed k \<longleftrightarrow> mark k = Some (CHR ''/'')"

text \<open>
  What a run without key clashes keeps: the objects a unit has listed are named by
  paths; every call that resolved is accounted for (its rows are gone, or it was
  skipped with its rows gone or kept); and every string marked seen is the name of an
  object or the key of a unit that resolved to \<^verbatim>\<open>true\<close>.
\<close>

definition listed_ok :: "pc \<Rightarrow> bool" where
  "listed_ok p \<longleftrightarrow>
     (case p of Await_deletes s files dels \<Rightarrow> \<forall>f\<in>set files. slashed f
              | Await_purge s files \<Rightarrow> \<forall>f\<in>set files. slashed f
              | _ \<Rightarrow> True)"

definition sound_task :: "document_row set \<Rightarrow> task \<Rightarrow> bool" where
  "sound_task C t \<longleftrightarrow> fst t \<in> C \<and> listed_ok (snd t)"

definition accounted :: "document_row list \<Rightarrow> document_row \<times> outcome \<Rightarrow> bool" where
  "accounted docs x \<longleftrightarrow>
     (snd x = Inr True \<longrightarrow> gone docs (fst x)) \<and>
     (snd x = Inr False \<longrightarrow> gone docs (fst x) \<or> kept docs (fst x))"

definition sound_state :: "document_row set \<Rightarrow> document_row list \<Rightarrow> state \<Rightarrow> bool" where
  "sound_state C D st \<longleftrightarrow>
     set (documents st) \<subseteq> set D \<and>
     (\<forall>x\<in>set (outcomes st). fst x \<in> C \<and> accounted (documents st) x) \<and>
     (\<forall>k\<in>seen st. slashed k \<or> (\<exists>x\<in>set (outcomes st). snd x = Inr True \<and> uid (fst x) = k))"

definition keys_apart :: "document_row set \<Rightarrow> bool" where
  "keys_apart C \<longleftrightarrow> (\<forall>r\<in>C. \<forall>r'\<in>C. uid r = uid r' \<longrightarrow> same_version r r')"




subsection \<open>Concrete stores and configurations\<close>

definition cfg_ok :: config where
  "cfg_ok = \<lparr>CORE_DATABASE_URI = Some ''postgres://core'', SERVICE_ACCOUNT = Some ''sa.json'',
     DUST_DATA_SOURCES_BUCKET = Some ''bucket'',
     blake3_hex = (\<lambda>s. s), fetch_fails = False, io_fails = (\<lambda>r c. False)\<rparr>"

definition version :: "int \<Rightarrow> int \<Rightarrow> string \<Rightarrow> string \<Rightarrow> int \<Rightarrow> string \<Rightarrow> document_row" where
  "version i ds doc h c s =
     \<lparr>row_id = i, created = c, data_source = ds, document_id = doc, hash = h, status = s\<rparr>"

definition src1 :: data_source_row where
  "src1 = \<lparr>ds_id = 1, project = 7, internal_id = ''i1''\<rparr>"

definition store :: "document_row list \<Rightarrow> string list \<Rightarrow> state" where
  "store docs objs =
     \<lparr>documents = docs, data_sources = [src1], bucket = objs, seen = {}, deletedCount = 0,
      rejection = None, outcomes = [], trace = [], logs = []\<rparr>"

definition rowA :: document_row where
  "rowA = version 1 1 ''doc-42'' ''h1'' 100 ''deleted''"

definition rowB_active :: document_row where
  "rowB_active = version 2 1 ''doc-42'' ''h1'' 150 ''active''"

definition rowB_deleted :: document_row where
  "rowB_deleted = version 2 1 ''doc-42'' ''h1'' 150 ''deleted''"

definition blob1 :: string where
  "blob1 = ''7/i1/doc-42/h1/content''"

text \<open>Row A deleted, row B live with the same hash and created later.\<close>

definition st_live :: state where
  "st_live = store [rowA, rowB_active] [blob1]"

text \<open>Row A deleted, nothing live.\<close>

definition st_one :: state where
  "st_one = store [rowA] [blob1]"


definition no_picks :: "nat \<Rightarrow> nat list" where
  "no_picks i = []"

definition cfg_no_bucket :: config where
  "cfg_no_bucket = cfg_ok\<lparr>DUST_DATA_SOURCES_BUCKET := None\<rparr>"

definition cfg_no_uri :: config where
  "cfg_no_uri = cfg_ok\<lparr>CORE_DATABASE_URI := None\<rparr>"

text \<open>Two deleted rows of the same version, nothing live.\<close>

definition st_dup :: state where
  "st_dup = store [rowA, rowB_deleted] [blob1]"

definition rowA2 :: document_row where
  "rowA2 = version 3 1 ''doc-42'' ''h1'' 120 ''deleted''"

text \<open>Two deleted rows of the same version and a live one, created later than both.\<close>

definition st_dup_live :: state where
  "st_dup_live = store [rowA, rowA2, rowB_active] [blob1]"



text \<open>A deleted row and a live row of another document.\<close>

definition row_other :: document_row where
  "row_other = version 5 1 ''doc-43'' ''h3'' 120 ''active''"

definition st_mixed :: state where
  "st_mixed = store [rowA, row_other] [blob1]"

text \<open>
  Thirty-three deleted rows. The first and the last are different versions with the
  same key \<^verbatim>\<open>1-a-b-c\<close>; the thirty-one in between are kept by a live row
  (\<open>row_keeper\<close>) of their version. The bucket holds one object of the last version.
\<close>

definition row_first :: document_row where
  "row_first = version 1 1 ''a-b'' ''c'' 100 ''deleted''"

definition rows_kept :: "document_row list" where
  "rows_kept = map (\<lambda>i. version (int i) 1 ''d'' ''e'' 100 ''deleted'') [2..<33]"

definition row_second :: document_row where
  "row_second = version 33 1 ''a'' ''b-c'' 100 ''deleted''"

definition row_keeper :: document_row where
  "row_keeper = version 34 1 ''d'' ''e'' 200 ''active''"

definition blob2 :: string where
  "blob2 = ''7/i1/a/b-c/content''"

definition st_clash :: state where
  "st_clash = store (row_first # rows_kept @ [row_second, row_keeper]) [blob2]"

text \<open>
  Row A, the same thirty-one rows, and then a second deleted row of the version of row A:
  thirty-three candidates, the last one alone in the second chunk.
\<close>

definition st_far :: state where
  "st_far = store (rowA # rows_kept @ [rowB_deleted, row_keeper]) [blob1]"








text \<open>Row A, and a deleted row that a live row of its version keeps.\<close>

definition row_held :: document_row where
  "row_held = version 2 1 ''d'' ''e'' 100 ''deleted''"

definition st_held :: state where
  "st_held = store [rowA, row_held, row_keeper] [blob1]"

section \<open>Properties\<close>

subsection \<open>One unit\<close>

lemma pending_rank: "pending p \<longleftrightarrow> 0 < rank p"
  by (cases p) (simp_all add: pending_def)

lemma resume_rank: "rank (fst (resume cfg r p st)) < rank p \<or> rank p = 0"
  by (cases p) (simp_all add: Let_def split: list.splits)

lemma resume_settled: "\<not> pending p \<Longrightarrow> resume cfg r p st = (p, st)"
  by (cases p) (simp_all add: pending_def)

lemma resume_documents:
  "documents (snd (resume cfg r p st)) = documents st \<or>
   (\<exists>s files. p = Await_purge s files \<and> fst (resume cfg r p st) = Resolved True \<and>
      documents (snd (resume cfg r p st)) = purge r (documents st))"
  by (cases p) (simp_all add: Let_def emit_def logger_info_def split: list.splits)

lemma resume_seen:
  "seen (snd (resume cfg r p st)) = seen st \<or>
   (\<exists>s files. p = Await_purge s files \<and> fst (resume cfg r p st) = Resolved True \<and>
      seen (snd (resume cfg r p st)) = insert (uid r) (seen st \<union> set files))"
  by (cases p) (simp_all add: Let_def emit_def logger_info_def split: list.splits)

lemma resume_frame:
  "data_sources (snd (resume cfg r p st)) = data_sources st \<and>
   outcomes (snd (resume cfg r p st)) = outcomes st \<and>
   rejection (snd (resume cfg r p st)) = rejection st \<and>
   deletedCount (snd (resume cfg r p st)) = deletedCount st"
  by (cases p) (simp_all add: Let_def emit_def logger_info_def split: list.splits)

lemma start_rank: "rank (fst (scrubDocument_start cfg r st)) \<le> 5"
  by (simp add: scrubDocument_start_def)

lemma resume'_rank: "rank (fst (resume' cfg r x)) \<le> rank (fst x) - 1"
  using resume_rank [of cfg r "fst x" "snd x"] resume_settled [of "fst x" cfg r "snd x"]
  by (auto simp: resume'_def pending_rank)

text \<open>Five resumptions are enough: the call always settles.\<close>

lemma scrubDocument_pc_settled: "rank (fst (scrubDocument_pc cfg r st)) = 0"
proof -
  let ?x0 = "scrubDocument_start cfg r st"
  let ?x1 = "resume' cfg r ?x0"
  let ?x2 = "resume' cfg r ?x1"
  let ?x3 = "resume' cfg r ?x2"
  let ?x4 = "resume' cfg r ?x3"
  let ?x5 = "resume' cfg r ?x4"
  have "rank (fst ?x0) \<le> 5" by (rule start_rank)
  then have "rank (fst ?x1) \<le> 4" using resume'_rank [of cfg r ?x0] by linarith
  then have "rank (fst ?x2) \<le> 3" using resume'_rank [of cfg r ?x1] by linarith
  then have "rank (fst ?x3) \<le> 2" using resume'_rank [of cfg r ?x2] by linarith
  then have "rank (fst ?x4) \<le> 1" using resume'_rank [of cfg r ?x3] by linarith
  then have "rank (fst ?x5) \<le> 0" using resume'_rank [of cfg r ?x4] by linarith
  then show ?thesis by (simp add: scrubDocument_pc_def)
qed

lemma scrubDocument_total: "\<exists>out. fst (scrubDocument cfg r st) = Some out"
proof -
  obtain p st' where eq: "scrubDocument_pc cfg r st = (p, st')"
    by (cases "scrubDocument_pc cfg r st")
  with scrubDocument_pc_settled [of cfg r st] have "rank p = 0" by simp
  then have "\<exists>out. result p = Some out" by (cases p) simp_all
  with eq show ?thesis by (simp add: scrubDocument_def)
qed

lemma live_found:
  assumes "d \<in> set docs" "data_source d = data_source r" "document_id d = document_id r"
    "hash d = hash r" "status d \<noteq> ''deleted''" "created r \<le> created d"
  shows "0 < length (moreRecentSameHash docs r)"
proof -
  let ?P = "\<lambda>d. same_version r d \<and> status d \<noteq> ''deleted'' \<and> created r \<le> created d"
  have "?P d" using assms by (simp add: same_version_def)
  with assms(1) have "filter ?P docs \<noteq> []" by (auto simp: filter_empty_conv)
  then show ?thesis by (cases "filter ?P docs") (simp_all add: moreRecentSameHash_def)
qed

lemma split_at_last:
  assumes "A @ [x] = pre @ y # post" "y \<notin> set A"
  shows "pre = A \<and> post = [] \<and> y = x"
  using assms by (induction A arbitrary: pre) (auto simp: Cons_eq_append_conv)

lemma scrubDocument_purge_calls:
  assumes "trace (snd (scrubDocument cfg r st)) = trace st @ evs" "Purge a b c \<in> set evs"
  shows "\<exists>s ss. dataSourceData (data_sources st) r = s # ss \<and>
           evs = [Query_more_recent (data_source r) (document_id r) (hash r) (created r),
                  Query_data_source (data_source r), Get_files (path cfg s r)] @
                 map File_delete (filter (\<lambda>f. f \<notin> seen st) (getFiles (bucket st) (path cfg s r))) @
                 map (\<lambda>f. File_delete_settled f True)
                   (filter (\<lambda>f. f \<notin> seen st) (getFiles (bucket st) (path cfg s r))) @
                 [Purge (data_source r) (document_id r) (hash r)]"
  using assms
  by (auto simp: scrubDocument_def scrubDocument_pc_def scrubDocument_start_def resume'_def
      emit_def logger_info_def Let_def filter_empty_conv split: if_splits list.splits)

text \<open>
  Whatever the other units have done in between: the step of a unit that issues the
  purge is the one in which all the deletes it had in flight have settled, none of them
  failing, and the purge comes after them.
\<close>

lemma purge_step_after_deletes:
  assumes "trace (snd (resume cfg r p st)) = trace st @ evs" "Purge a b c \<in> set evs"
  shows "\<exists>s files dels. p = Await_deletes s files dels \<and> fst (resume cfg r p st) = Await_purge s files \<and>
           evs = map (\<lambda>f. File_delete_settled f True) dels @
                 [Purge (data_source r) (document_id r) (hash r)]"
  using assms
  by (cases p) (auto simp: emit_def logger_info_def Let_def filter_empty_conv split: if_splits list.splits)

subsection \<open>What every move of a unit keeps\<close>

lemma preservedI:
  assumes "\<And>r st. P st \<Longrightarrow> P (snd (start_unit cfg r st))"
    and "\<And>t st. P st \<Longrightarrow> P (snd (step_unit cfg t st))"
    and "\<And>l st. P st \<Longrightarrow> P (logger_info l st)"
  shows "preserved cfg P"
  using assms by (simp add: preserved_def)

lemma preserved_start: "preserved cfg P \<Longrightarrow> P st \<Longrightarrow> P (snd (start_unit cfg r st))"
  by (simp add: preserved_def)

lemma preserved_step: "preserved cfg P \<Longrightarrow> P st \<Longrightarrow> P (snd (step_unit cfg t st))"
  by (cases t) (simp add: preserved_def)

lemma preserved_log: "preserved cfg P \<Longrightarrow> P st \<Longrightarrow> P (logger_info l st)"
  by (simp add: preserved_def)

lemma finish_unit_preserved:
  assumes "preserved cfg P" "P st"
  shows "P (snd (finish_unit cfg t st))"
proof -
  obtain t1 s1 where 1: "step_unit cfg t st = (t1, s1)" by (cases "step_unit cfg t st")
  obtain t2 s2 where 2: "step_unit cfg t1 s1 = (t2, s2)" by (cases "step_unit cfg t1 s1")
  obtain t3 s3 where 3: "step_unit cfg t2 s2 = (t3, s3)" by (cases "step_unit cfg t2 s2")
  obtain t4 s4 where 4: "step_unit cfg t3 s3 = (t4, s4)" by (cases "step_unit cfg t3 s3")
  have "P s1" using preserved_step [OF assms, of t] 1 by simp
  then have "P s2" using preserved_step [OF assms(1), of s1 t1] 2 by simp
  then have "P s3" using preserved_step [OF assms(1), of s2 t2] 3 by simp
  then have "P s4" using preserved_step [OF assms(1), of s3 t3] 4 by simp
  then have "P (snd (step_unit cfg t4 s4))" by (rule preserved_step [OF assms(1)])
  then show ?thesis by (simp add: finish_unit_def 1 2 3 4)
qed

lemma start_all_preserved:
  "preserved cfg P \<Longrightarrow> P st \<Longrightarrow> P (snd (start_all cfg c st))"
proof (induction c arbitrary: st)
  case Nil
  then show ?case by simp
next
  case (Cons r rs)
  have "P (snd (start_unit cfg r st))" using Cons.prems by (rule preserved_start)
  from Cons.IH [OF Cons.prems(1) this] show ?case
    by (simp add: split_beta)
qed

lemma run_schedule_preserved:
  "preserved cfg P \<Longrightarrow> P st \<Longrightarrow> P (snd (run_schedule cfg picks ts st))"
proof (induction picks arbitrary: ts st)
  case Nil
  then show ?case by simp
next
  case (Cons i picks)
  have "P (snd (step_unit cfg (ts ! i) st))" using Cons.prems by (rule preserved_step)
  from Cons.IH [OF Cons.prems(1) this] Cons.IH [OF Cons.prems] show ?case
    by (simp add: split_beta)
qed

lemma drain_preserved:
  "preserved cfg P \<Longrightarrow> P st \<Longrightarrow> P (snd (drain cfg ts st))"
proof (induction ts arbitrary: st)
  case Nil
  then show ?case by simp
next
  case (Cons t ts)
  have "P (snd (finish_unit cfg t st))" using Cons.prems by (rule finish_unit_preserved)
  from Cons.IH [OF Cons.prems(1) this] show ?case
    by (simp add: split_beta)
qed

lemma promise_all_preserved:
  assumes "preserved cfg P" "P st"
  shows "P (snd (promise_all cfg picks c st))"
proof -
  have "P (snd (start_all cfg c st))" using assms by (rule start_all_preserved)
  then have "P (snd (run_schedule cfg picks (fst (start_all cfg c st)) (snd (start_all cfg c st))))"
    by (rule run_schedule_preserved [OF assms(1)])
  then show ?thesis
    by (simp add: promise_all_def split_beta drain_preserved [OF assms(1)])
qed

lemma process_chunks_preserved:
  "preserved cfg P \<Longrightarrow> P st \<Longrightarrow> P (process_chunks cfg sched n i cs st)"
proof (induction cs arbitrary: i st)
  case Nil
  then show ?case by simp
next
  case (Cons c cs)
  let ?st1 = "snd (promise_all cfg (sched i) c (logger_info [chunk_line i n] st))"
  have "P (logger_info [chunk_line i n] st)" using Cons.prems by (rule preserved_log)
  then have 1: "P ?st1" by (rule promise_all_preserved [OF Cons.prems(1)])
  show ?case
  proof (cases "rejection ?st1 = None")
    case True
    then show ?thesis using Cons.IH [OF Cons.prems(1) 1] by (simp add: Let_def)
  next
    case False
    then show ?thesis using 1 by (auto simp: Let_def)
  qed
qed

lemma settle_frame:
  "documents (settle r p st) = documents st \<and> data_sources (settle r p st) = data_sources st \<and>
   bucket (settle r p st) = bucket st \<and> seen (settle r p st) = seen st \<and>
   trace (settle r p st) = trace st \<and> logs (settle r p st) = logs st"
  by (cases p) (simp_all add: settle_def)

lemma start_unit_frame:
  "documents (snd (start_unit cfg r st)) = documents st \<and>
   data_sources (snd (start_unit cfg r st)) = data_sources st \<and>
   bucket (snd (start_unit cfg r st)) = bucket st \<and>
   seen (snd (start_unit cfg r st)) = seen st"
  by (simp add: start_unit_def split_beta settle_frame scrubDocument_start_def emit_def)

lemma live_purge: "filter live (purge r docs) = filter live docs"
  by (induction docs) (auto simp: purge_def live_def)

lemma step_unit_live: "filter live (documents (snd (step_unit cfg t st))) = filter live (documents st)"
  using resume_documents [of cfg "fst t" "snd t" st]
  by (auto simp: step_unit_def split_beta settle_frame live_purge)

lemma live_preserved: "preserved cfg (\<lambda>st. filter live (documents st) = L)"
  by (rule preservedI) (simp_all add: start_unit_frame step_unit_live logger_info_def)

lemma resume_no_report:
  "Report_success p \<in> set (trace (snd (resume cfg r q st))) \<Longrightarrow> Report_success p \<in> set (trace st)"
  by (cases q) (auto simp: Let_def emit_def logger_info_def split: if_splits list.splits)

lemma start_no_report:
  "Report_success p \<in> set (trace (snd (scrubDocument_start cfg r st))) \<Longrightarrow> Report_success p \<in> set (trace st)"
  by (auto simp: scrubDocument_start_def emit_def split: if_splits)

lemma no_report_preserved: "preserved cfg (\<lambda>st. \<forall>p. Report_success p \<notin> set (trace st))"
proof (rule preservedI)
  fix r and st :: state assume "\<forall>p. Report_success p \<notin> set (trace st)"
  then show "\<forall>p. Report_success p \<notin> set (trace (snd (start_unit cfg r st)))"
    using start_no_report [of _ cfg r st] by (auto simp: start_unit_def split_beta settle_frame)
next
  fix t and st :: state assume "\<forall>p. Report_success p \<notin> set (trace st)"
  then show "\<forall>p. Report_success p \<notin> set (trace (snd (step_unit cfg t st)))"
    using resume_no_report [of _ cfg "fst t" "snd t" st] by (auto simp: step_unit_def split_beta settle_frame)
next
  fix l and st :: state assume "\<forall>p. Report_success p \<notin> set (trace st)"
  then show "\<forall>p. Report_success p \<notin> set (trace (logger_info l st))"
    by (simp add: logger_info_def)
qed

lemma start_frame2:
  "outcomes (snd (scrubDocument_start cfg r st)) = outcomes st \<and>
   rejection (snd (scrubDocument_start cfg r st)) = rejection st \<and>
   deletedCount (snd (scrubDocument_start cfg r st)) = deletedCount st"
  by (simp add: scrubDocument_start_def emit_def)

lemma settle_counted: "counted st \<Longrightarrow> counted (settle r p st)"
  by (cases p) (auto simp: settle_def counted_def)

lemma start_counted: "counted (snd (scrubDocument_start cfg r st)) = counted st"
  by (simp add: counted_def start_frame2)

lemma resume_counted: "counted (snd (resume cfg r p st)) = counted st"
  by (simp add: counted_def resume_frame)

lemma counted_preserved: "preserved cfg counted"
proof (rule preservedI)
  fix r and st :: state assume "counted st"
  then show "counted (snd (start_unit cfg r st))"
    by (simp add: start_unit_def split_beta settle_counted start_counted)
next
  fix t and st :: state assume "counted st"
  then show "counted (snd (step_unit cfg t st))"
    by (simp add: step_unit_def split_beta settle_counted resume_counted)
next
  fix l and st :: state assume "counted st"
  then show "counted (logger_info l st)"
    by (simp add: logger_info_def counted_def)
qed

lemma settle_failure_rejects: "failure_rejects st \<Longrightarrow> failure_rejects (settle r p st)"
  by (cases p) (auto simp: settle_def failure_rejects_def split: option.splits)

lemma start_failure_rejects: "failure_rejects (snd (scrubDocument_start cfg r st)) = failure_rejects st"
  by (simp add: failure_rejects_def start_frame2)

lemma resume_failure_rejects: "failure_rejects (snd (resume cfg r p st)) = failure_rejects st"
  by (simp add: failure_rejects_def resume_frame)

lemma failure_rejects_preserved: "preserved cfg failure_rejects"
proof (rule preservedI)
  fix r and st :: state assume "failure_rejects st"
  then show "failure_rejects (snd (start_unit cfg r st))"
    by (simp add: start_unit_def split_beta settle_failure_rejects start_failure_rejects)
next
  fix t and st :: state assume "failure_rejects st"
  then show "failure_rejects (snd (step_unit cfg t st))"
    by (simp add: step_unit_def split_beta settle_failure_rejects resume_failure_rejects)
next
  fix l and st :: state assume "failure_rejects st"
  then show "failure_rejects (logger_info l st)"
    by (simp add: logger_info_def failure_rejects_def)
qed

lemma deletedDocuments_emit:
  "deletedDocuments (emit evs (st\<lparr>rejection := a, outcomes := b, trace := c, logs := d\<rparr>)) = deletedDocuments st"
  by (simp add: deletedDocuments_def emit_def)

lemma run_unfold:
  "scrubDeletedCoreDocumentVersionsCheck cfg sched st0 =
     (if falsy (CORE_DATABASE_URI cfg) then
        (Inl (Env_not_defined ''CORE_DATABASE_URI''), st0\<lparr>rejection := None, outcomes := [], trace := [], logs := []\<rparr>)
      else if fetch_fails cfg then
        (Inl (Io_failure Io_list_deleted),
         emit [Query_deleted_documents] (st0\<lparr>rejection := None, outcomes := [], trace := [], logs := []\<rparr>))
      else case rejection (loop_end cfg sched st0) of
             Some e \<Rightarrow> (Inl e, loop_end cfg sched st0)
           | None \<Rightarrow> (Inr (), emit [Report_success []]
                  (logger_info [done_line (deletedCount (loop_end cfg sched st0))] (loop_end cfg sched st0))))"
  by (simp add: scrubDeletedCoreDocumentVersionsCheck_def loop_end_def loop_start_def Let_def
      deletedDocuments_emit split: option.splits)

lemma loop_end_no_report: "Report_success p \<notin> set (trace (loop_end cfg sched st0))"
proof -
  have "\<forall>p. Report_success p \<notin> set (trace (loop_start st0))"
    by (simp add: loop_start_def emit_def logger_info_def)
  from process_chunks_preserved [OF no_report_preserved this]
  show ?thesis by (simp add: loop_end_def)
qed

lemma loop_end_counted: "counted (loop_end cfg sched st0)"
proof -
  have "counted (loop_start st0)"
    by (simp add: loop_start_def emit_def logger_info_def counted_def)
  from process_chunks_preserved [OF counted_preserved this]
  show ?thesis by (simp add: loop_end_def)
qed

lemma loop_end_failure_rejects: "failure_rejects (loop_end cfg sched st0)"
proof -
  have "failure_rejects (loop_start st0)"
    by (simp add: loop_start_def emit_def logger_info_def failure_rejects_def)
  from process_chunks_preserved [OF failure_rejects_preserved this]
  show ?thesis by (simp add: loop_end_def)
qed


subsection \<open>The units of a chunk\<close>

lemma step_unit_settled: "\<not> pending (snd t) \<Longrightarrow> step_unit cfg t st = (t, st)"
  by (simp add: step_unit_def)

lemma step_unit_row: "fst (fst (step_unit cfg t st)) = fst t"
  by (simp add: step_unit_def split_beta)

lemma step_unit_rank: "rank (snd (fst (step_unit cfg t st))) \<le> rank (snd t) - 1"
  using resume_rank [of cfg "fst t" "snd t" st]
  by (auto simp: step_unit_def split_beta pending_rank)

lemma finish_unit_row: "fst (fst (finish_unit cfg t st)) = fst t"
  by (simp add: finish_unit_def split_beta step_unit_row)

lemma finish_unit_settled: "\<not> pending (snd t) \<Longrightarrow> finish_unit cfg t st = (t, st)"
  by (simp add: finish_unit_def step_unit_settled)

lemma rank_le_5: "rank p \<le> 5"
  by (cases p) simp_all

lemma finish_unit_done: "\<not> pending (snd (fst (finish_unit cfg t st)))"
proof -
  obtain t1 s1 where 1: "step_unit cfg t st = (t1, s1)" by (cases "step_unit cfg t st")
  obtain t2 s2 where 2: "step_unit cfg t1 s1 = (t2, s2)" by (cases "step_unit cfg t1 s1")
  obtain t3 s3 where 3: "step_unit cfg t2 s2 = (t3, s3)" by (cases "step_unit cfg t2 s2")
  obtain t4 s4 where 4: "step_unit cfg t3 s3 = (t4, s4)" by (cases "step_unit cfg t3 s3")
  obtain t5 s5 where 5: "step_unit cfg t4 s4 = (t5, s5)" by (cases "step_unit cfg t4 s4")
  have "rank (snd t1) \<le> 4" using step_unit_rank [of cfg t st] rank_le_5 [of "snd t"] 1 by simp
  then have "rank (snd t2) \<le> 3" using step_unit_rank [of cfg t1 s1] 2 by simp
  then have "rank (snd t3) \<le> 2" using step_unit_rank [of cfg t2 s2] 3 by simp
  then have "rank (snd t4) \<le> 1" using step_unit_rank [of cfg t3 s3] 4 by simp
  then have "rank (snd t5) \<le> 0" using step_unit_rank [of cfg t4 s4] 5 by simp
  then show ?thesis by (simp add: finish_unit_def 1 2 3 4 5 pending_rank)
qed

lemma start_all_rows: "map fst (fst (start_all cfg c st)) = c"
  by (induction c arbitrary: st) (simp_all add: split_beta start_unit_def)

lemma run_schedule_rows: "map fst (fst (run_schedule cfg picks ts st)) = map fst ts"
proof (induction picks arbitrary: ts st)
  case Nil
  then show ?case by simp
next
  case (Cons i picks)
  show ?case
  proof (cases "i < length ts")
    case True
    have "map fst (ts[i := fst (step_unit cfg (ts ! i) st)]) = map fst ts"
      using True list_update_id [of "map fst ts" i] by (simp add: map_update step_unit_row)
    then show ?thesis using True Cons.IH by (simp add: split_beta)
  next
    case False
    then show ?thesis using Cons.IH by simp
  qed
qed





lemma run_schedule_keeps:
  "j < length ts \<Longrightarrow> \<not> pending (snd (ts ! j)) \<Longrightarrow> fst (run_schedule cfg picks ts st) ! j = ts ! j"
proof (induction picks arbitrary: ts st)
  case Nil
  then show ?case by simp
next
  case (Cons i picks)
  show ?case
  proof (cases "i < length ts")
    case True
    let ?t = "fst (step_unit cfg (ts ! i) st)"
    have same: "(ts[i := ?t]) ! j = ts ! j"
    proof (cases "i = j")
      case True
      then show ?thesis using Cons.prems by (simp add: step_unit_settled)
    next
      case False
      then show ?thesis by simp
    qed
    have "fst (run_schedule cfg picks (ts[i := ?t]) (snd (step_unit cfg (ts ! i) st))) ! j = (ts[i := ?t]) ! j"
      using Cons.prems same by (intro Cons.IH) simp_all
    then show ?thesis using True same by (simp add: split_beta)
  next
    case False
    then show ?thesis using Cons by simp
  qed
qed

lemma drain_keeps:
  "j < length ts \<Longrightarrow> \<not> pending (snd (ts ! j)) \<Longrightarrow> fst (drain cfg ts st) ! j = ts ! j"
proof (induction ts arbitrary: j st)
  case Nil
  then show ?case by simp
next
  case (Cons t ts)
  show ?case
  proof (cases j)
    case 0
    then show ?thesis using Cons.prems by (simp add: split_beta finish_unit_settled)
  next
    case (Suc k)
    then show ?thesis using Cons by (simp add: split_beta)
  qed
qed

lemma length_start_all: "length (fst (start_all cfg c st)) = length c"
  using start_all_rows [of cfg c st] by (metis length_map)

lemma length_run_schedule: "length (fst (run_schedule cfg picks ts st)) = length ts"
  using run_schedule_rows [of cfg picks ts st] by (metis length_map)

lemma promise_all_keeps:
  assumes "j < length c" "\<not> pending (snd (fst (start_all cfg c st) ! j))"
  shows "fst (promise_all cfg picks c st) ! j = fst (start_all cfg c st) ! j"
proof -
  let ?ts = "fst (start_all cfg c st)"
  let ?st = "snd (start_all cfg c st)"
  let ?ts' = "fst (run_schedule cfg picks ?ts ?st)"
  have j: "j < length ?ts" using assms(1) by (simp add: length_start_all)
  have 1: "?ts' ! j = ?ts ! j" using j assms(2) by (rule run_schedule_keeps)
  have "fst (drain cfg ?ts' (snd (run_schedule cfg picks ?ts ?st))) ! j = ?ts' ! j"
    using j assms(2) 1 by (intro drain_keeps) (simp_all add: length_run_schedule)
  then show ?thesis using 1 by (simp add: promise_all_def split_beta)
qed

lemma settle_rows: "rows_of (settle r p st) = rows_of st + row_if_settled (r, p)"
  by (cases p) (simp_all add: settle_def rows_of_def row_if_settled_def pending_def)

lemma start_unit_rows:
  "rows_of (snd (start_unit cfg r st)) = rows_of st + row_if_settled (fst (start_unit cfg r st))"
  using settle_rows [of r "fst (scrubDocument_start cfg r st)" "snd (scrubDocument_start cfg r st)"]
  by (simp add: start_unit_def split_beta rows_of_def start_frame2)

lemma start_all_rows_of:
  "rows_of (snd (start_all cfg c st)) = rows_of st + settled_rows (fst (start_all cfg c st))"
proof (induction c arbitrary: st)
  case Nil
  then show ?case by (simp add: settled_rows_def)
next
  case (Cons r rs)
  show ?case
    using Cons.IH [of "snd (start_unit cfg r st)"] start_unit_rows [of cfg r st]
    by (simp add: split_beta settled_rows_def)
qed

lemma step_unit_rows:
  "rows_of (snd (step_unit cfg t st)) + row_if_settled t =
     rows_of st + row_if_settled (fst (step_unit cfg t st))"
proof (cases "pending (snd t)")
  case True
  then show ?thesis
    using settle_rows [of "fst t" "fst (resume cfg (fst t) (snd t) st)" "snd (resume cfg (fst t) (snd t) st)"]
    by (simp add: step_unit_def split_beta rows_of_def resume_frame row_if_settled_def)
next
  case False
  then show ?thesis by (simp add: step_unit_def)
qed

lemma settled_rows_update:
  "i < length ts \<Longrightarrow>
     settled_rows (ts[i := t]) + row_if_settled (ts ! i) = settled_rows ts + row_if_settled t"
proof (induction ts arbitrary: i)
  case Nil
  then show ?case by simp
next
  case (Cons a ts)
  show ?case
  proof (cases i)
    case 0
    then show ?thesis by (simp add: settled_rows_def)
  next
    case (Suc k)
    then show ?thesis using Cons.IH [of k] Cons.prems by (simp add: settled_rows_def)
  qed
qed

lemma run_schedule_rows_of:
  "rows_of (snd (run_schedule cfg picks ts st)) + settled_rows ts =
     rows_of st + settled_rows (fst (run_schedule cfg picks ts st))"
proof (induction picks arbitrary: ts st)
  case Nil
  then show ?case by simp
next
  case (Cons i picks)
  show ?case
  proof (cases "i < length ts")
    case True
    let ?t = "fst (step_unit cfg (ts ! i) st)"
    let ?s = "snd (step_unit cfg (ts ! i) st)"
    let ?R = "run_schedule cfg picks (ts[i := ?t]) ?s"
    have "rows_of (snd ?R) + settled_rows ts + row_if_settled ?t =
          rows_of (snd ?R) + settled_rows (ts[i := ?t]) + row_if_settled (ts ! i)"
      using settled_rows_update [OF True, of ?t] by (simp add: add.assoc)
    also have "\<dots> = rows_of ?s + settled_rows (fst ?R) + row_if_settled (ts ! i)"
      using Cons.IH [of "ts[i := ?t]" ?s] by simp
    also have "\<dots> = rows_of st + settled_rows (fst ?R) + row_if_settled ?t"
      using step_unit_rows [of cfg "ts ! i" st] by (simp add: add.assoc add.left_commute add.commute)
    finally have "rows_of (snd ?R) + settled_rows ts = rows_of st + settled_rows (fst ?R)"
      by simp
    then show ?thesis using True by (simp add: split_beta)
  next
    case False
    then show ?thesis using Cons.IH [of ts st] by simp
  qed
qed

lemma rows_chain:
  fixes x0 :: "'a multiset"
  assumes "x1 + a0 = x0 + a1" "x2 + a1 = x1 + a2"
  shows "x2 + a0 = x0 + a2"
proof -
  have "x2 + a0 + a1 = x2 + a1 + a0" by (simp add: ac_simps)
  also have "\<dots> = x1 + a2 + a0" by (simp add: assms(2))
  also have "\<dots> = x1 + a0 + a2" by (simp add: ac_simps)
  also have "\<dots> = x0 + a1 + a2" by (simp add: assms(1))
  also have "\<dots> = x0 + a2 + a1" by (simp add: ac_simps)
  finally show ?thesis by simp
qed

lemma finish_unit_rows:
  "rows_of (snd (finish_unit cfg t st)) + row_if_settled t = rows_of st + {#fst t#}"
proof -
  obtain t1 s1 where 1: "step_unit cfg t st = (t1, s1)" by (cases "step_unit cfg t st")
  obtain t2 s2 where 2: "step_unit cfg t1 s1 = (t2, s2)" by (cases "step_unit cfg t1 s1")
  obtain t3 s3 where 3: "step_unit cfg t2 s2 = (t3, s3)" by (cases "step_unit cfg t2 s2")
  obtain t4 s4 where 4: "step_unit cfg t3 s3 = (t4, s4)" by (cases "step_unit cfg t3 s3")
  obtain t5 s5 where 5: "step_unit cfg t4 s4 = (t5, s5)" by (cases "step_unit cfg t4 s4")
  have fin: "finish_unit cfg t st = (t5, s5)" by (simp add: finish_unit_def 1 2 3 4 5)
  have "fst t5 = fst t" using finish_unit_row [of cfg t st] by (simp add: fin)
  then have e: "row_if_settled t5 = {#fst t#}"
    using finish_unit_done [of cfg t st] by (simp add: fin row_if_settled_def)
  have a1: "rows_of s1 + row_if_settled t = rows_of st + row_if_settled t1"
    using step_unit_rows [of cfg t st] by (simp add: 1)
  have a2: "rows_of s2 + row_if_settled t1 = rows_of s1 + row_if_settled t2"
    using step_unit_rows [of cfg t1 s1] by (simp add: 2)
  have a3: "rows_of s3 + row_if_settled t2 = rows_of s2 + row_if_settled t3"
    using step_unit_rows [of cfg t2 s2] by (simp add: 3)
  have a4: "rows_of s4 + row_if_settled t3 = rows_of s3 + row_if_settled t4"
    using step_unit_rows [of cfg t3 s3] by (simp add: 4)
  have a5: "rows_of s5 + row_if_settled t4 = rows_of s4 + row_if_settled t5"
    using step_unit_rows [of cfg t4 s4] by (simp add: 5)
  note b2 = rows_chain [OF a1 a2]
  note b3 = rows_chain [OF b2 a3]
  note b4 = rows_chain [OF b3 a4]
  note b5 = rows_chain [OF b4 a5]
  from b5 have "rows_of s5 + row_if_settled t = rows_of st + row_if_settled t5" .
  then show ?thesis by (simp add: fin e)
qed

lemma settled_rows_Cons: "settled_rows (t # ts) = row_if_settled t + settled_rows ts"
  by (simp add: settled_rows_def)

lemma drain_rows_of:
  "rows_of (snd (drain cfg ts st)) + settled_rows ts = rows_of st + mset (map fst ts)"
proof (induction ts arbitrary: st)
  case Nil
  then show ?case by (simp add: settled_rows_def)
next
  case (Cons t ts)
  let ?s = "snd (finish_unit cfg t st)"
  have a: "rows_of ?s + row_if_settled t = rows_of st + {#fst t#}" by (rule finish_unit_rows)
  have b: "rows_of (snd (drain cfg ts ?s)) + settled_rows ts = rows_of ?s + mset (map fst ts)"
    by (rule Cons.IH)
  have "rows_of (snd (drain cfg ts ?s)) + (row_if_settled t + settled_rows ts) =
        rows_of (snd (drain cfg ts ?s)) + settled_rows ts + row_if_settled t"
    by (simp add: ac_simps)
  also have "\<dots> = rows_of ?s + mset (map fst ts) + row_if_settled t" by (simp add: b)
  also have "\<dots> = rows_of ?s + row_if_settled t + mset (map fst ts)" by (simp add: ac_simps)
  also have "\<dots> = rows_of st + {#fst t#} + mset (map fst ts)" by (simp add: a)
  finally show ?case by (simp add: split_beta settled_rows_Cons)
qed

lemma promise_all_rows_of:
  "rows_of (snd (promise_all cfg picks c st)) = rows_of st + mset c"
proof -
  let ?a = "start_all cfg c st"
  let ?b = "run_schedule cfg picks (fst ?a) (snd ?a)"
  let ?d = "drain cfg (fst ?b) (snd ?b)"
  have rows: "map fst (fst ?b) = c" by (simp add: run_schedule_rows start_all_rows)
  have 1: "rows_of (snd ?a) = rows_of st + settled_rows (fst ?a)" by (rule start_all_rows_of)
  have 2: "rows_of (snd ?b) + settled_rows (fst ?a) = rows_of (snd ?a) + settled_rows (fst ?b)"
    by (rule run_schedule_rows_of)
  have 3: "rows_of (snd ?d) + settled_rows (fst ?b) = rows_of (snd ?b) + mset c"
    using drain_rows_of [of cfg "fst ?b" "snd ?b"] by (simp add: rows)
  have "rows_of (snd ?b) + settled_rows (fst ?a) = rows_of st + settled_rows (fst ?b) + settled_rows (fst ?a)"
    using 2 by (simp add: 1 ac_simps)
  then have 4: "rows_of (snd ?b) = rows_of st + settled_rows (fst ?b)" by simp
  have "rows_of (snd ?d) + settled_rows (fst ?b) = rows_of st + mset c + settled_rows (fst ?b)"
    using 3 by (simp add: 4 ac_simps)
  then have "rows_of (snd ?d) = rows_of st + mset c" by simp
  then show ?thesis by (simp add: promise_all_def split_beta)
qed

lemma length_outcomes: "length (outcomes st) = size (rows_of st)"
  by (simp add: rows_of_def)

lemma settle_prefix: "prefix (outcomes st) (outcomes (settle r p st))"
  by (cases p) (simp_all add: settle_def)

lemma start_unit_prefix: "prefix (outcomes st) (outcomes (snd (start_unit cfg r st)))"
  using settle_prefix [of "snd (scrubDocument_start cfg r st)" r "fst (scrubDocument_start cfg r st)"]
  by (simp add: start_unit_def split_beta start_frame2)

lemma step_unit_prefix: "prefix (outcomes st) (outcomes (snd (step_unit cfg t st)))"
  using settle_prefix [of "snd (resume cfg (fst t) (snd t) st)" "fst t" "fst (resume cfg (fst t) (snd t) st)"]
  by (simp add: step_unit_def split_beta resume_frame)

lemma outcomes_prefix_preserved: "preserved cfg (\<lambda>st. prefix out (outcomes st))"
proof (rule preservedI)
  fix r and st :: state assume "prefix out (outcomes st)"
  then show "prefix out (outcomes (snd (start_unit cfg r st)))"
    using start_unit_prefix by (rule prefix_order.trans)
next
  fix t and st :: state assume "prefix out (outcomes st)"
  then show "prefix out (outcomes (snd (step_unit cfg t st)))"
    using step_unit_prefix by (rule prefix_order.trans)
next
  fix l and st :: state assume "prefix out (outcomes st)"
  then show "prefix out (outcomes (logger_info l st))"
    by (simp add: logger_info_def)
qed

lemma process_chunks_rows:
  "failure_rejects st \<Longrightarrow> rejection st = None \<Longrightarrow>
   \<exists>k\<le>length cs.
     rows_of (process_chunks cfg sched n i cs st) = rows_of st + mset (concat (take k cs)) \<and>
     (rejection (process_chunks cfg sched n i cs st) = None \<longrightarrow> k = length cs) \<and>
     (rejection (process_chunks cfg sched n i cs st) \<noteq> None \<longrightarrow> 0 < k) \<and>
     (\<forall>x\<in>set (take (length (outcomes st) + length (concat (take (k - 1) cs)))
                 (outcomes (process_chunks cfg sched n i cs st))). \<exists>b. snd x = Inr b)"
proof (induction cs arbitrary: i st)
  case Nil
  then show ?case by (simp add: failure_rejects_def)
next
  case (Cons c cs)
  let ?s0 = "logger_info [chunk_line i n] st"
  let ?s1 = "snd (promise_all cfg (sched i) c ?s0)"
  have rows1: "rows_of ?s1 = rows_of st + mset c"
    by (simp add: promise_all_rows_of) (simp add: rows_of_def logger_info_def)
  then have len1: "length (outcomes ?s1) = length (outcomes st) + length c"
    by (simp add: length_outcomes)
  have "prefix (outcomes st) (outcomes ?s0)" by (simp add: logger_info_def)
  then have pre1: "prefix (outcomes st) (outcomes ?s1)"
    by (rule promise_all_preserved [OF outcomes_prefix_preserved])
  have "failure_rejects ?s0" using Cons.prems(1) by (simp add: logger_info_def failure_rejects_def)
  then have fr1: "failure_rejects ?s1"
    by (rule promise_all_preserved [OF failure_rejects_preserved])
  show ?case
  proof (cases "rejection ?s1 = None")
    case False
    then have eq: "process_chunks cfg sched n i (c # cs) st = ?s1" by (auto simp: Let_def)
    from pre1 obtain new where "outcomes ?s1 = outcomes st @ new" by (auto simp: prefix_def)
    then have "take (length (outcomes st)) (outcomes ?s1) = outcomes st" by simp
    then have "\<forall>x\<in>set (take (length (outcomes st)) (outcomes ?s1)). \<exists>b. snd x = Inr b"
      using Cons.prems by (simp add: failure_rejects_def)
    then show ?thesis unfolding eq using False rows1
      by (intro exI [of _ 1]) (simp del: not_None_eq)
  next
    case True
    then have eq: "process_chunks cfg sched n i (c # cs) st = process_chunks cfg sched n (Suc i) cs ?s1"
      by (simp add: Let_def)
    let ?e = "process_chunks cfg sched n (Suc i) cs ?s1"
    from Cons.IH [OF fr1 True, of "Suc i"] show ?thesis unfolding eq
    proof (elim exE conjE)
      fix k
      assume k: "k \<le> length cs"
        and rows: "rows_of ?e = rows_of ?s1 + mset (concat (take k cs))"
        and fin: "rejection ?e = None \<longrightarrow> k = length cs"
        and ok: "\<forall>x\<in>set (take (length (outcomes ?s1) + length (concat (take (k - 1) cs))) (outcomes ?e)). \<exists>b. snd x = Inr b"
      have "set (take (length (outcomes st) + length (concat (take k (c # cs)))) (outcomes ?e)) \<subseteq>
            set (take (length (outcomes ?s1) + length (concat (take (k - 1) cs))) (outcomes ?e))"
        by (cases k) (simp_all add: len1 set_take_subset_set_take)
      with ok have ok': "\<forall>x\<in>set (take (length (outcomes st) + length (concat (take k (c # cs)))) (outcomes ?e)). \<exists>b. snd x = Inr b"
        by (meson subsetD)
      show "\<exists>k\<le>length (c # cs).
         rows_of ?e = rows_of st + mset (concat (take k (c # cs))) \<and>
         (rejection ?e = None \<longrightarrow> k = length (c # cs)) \<and>
         (rejection ?e \<noteq> None \<longrightarrow> 0 < k) \<and>
         (\<forall>x\<in>set (take (length (outcomes st) + length (concat (take (k - 1) (c # cs)))) (outcomes ?e)).
             \<exists>b. snd x = Inr b)"
        using k rows fin ok' rows1
        by (intro exI [of _ "Suc k"]) (simp del: not_None_eq)
    qed
  qed
qed

subsection \<open>The chunks of a run\<close>

lemma concat_chunked: "concat (chunked xs) = xs"
proof (induction xs rule: chunked.induct)
  case (1 xs)
  show ?case
  proof (cases "xs = []")
    case True
    then show ?thesis by (simp add: chunked.simps)
  next
    case False
    then have "concat (chunked xs) = take 32 xs @ concat (chunked (drop 32 xs))"
      by (subst chunked.simps) simp
    then show ?thesis using 1 False by simp
  qed
qed

lemma chunked_Nil: "chunked [] = []"
  by (simp add: chunked.simps)

lemma chunked_nonempty: "xs \<noteq> [] \<Longrightarrow> chunked xs = take 32 xs # chunked (drop 32 xs)"
  by (subst chunked.simps) simp

lemma loop_start_fields:
  "outcomes (loop_start st0) = [] \<and> rejection (loop_start st0) = None \<and>
   trace (loop_start st0) = [Query_deleted_documents] \<and> seen (loop_start st0) = {} \<and>
   documents (loop_start st0) = documents st0 \<and> bucket (loop_start st0) = bucket st0 \<and>
   data_sources (loop_start st0) = data_sources st0 \<and> deletedCount (loop_start st0) = 0"
  by (simp add: loop_start_def emit_def logger_info_def)


lemma loop_end_rows:
  assumes "rejection (loop_end cfg sched st) = None"
  shows "mset (map fst (outcomes (loop_end cfg sched st))) = mset (deletedDocuments st)"
proof -
  let ?cs = "chunked (deletedDocuments st)"
  have fr: "failure_rejects (loop_start st)" by (simp add: failure_rejects_def loop_start_fields)
  have rn: "rejection (loop_start st) = None" by (simp add: loop_start_fields)
  from process_chunks_rows [OF fr rn, of ?cs cfg sched "length ?cs" 0] show ?thesis
  proof (elim exE conjE)
    fix k
    assume rows: "rows_of (process_chunks cfg sched (length ?cs) 0 ?cs (loop_start st)) =
                  rows_of (loop_start st) + mset (concat (take k ?cs))"
      and fin: "rejection (process_chunks cfg sched (length ?cs) 0 ?cs (loop_start st)) = None \<longrightarrow>
                  k = length ?cs"
    from fin assms have "k = length ?cs" by (simp add: loop_end_def)
    with rows show ?thesis by (simp add: loop_end_def rows_of_def loop_start_fields concat_chunked)
  qed
qed


lemma start_unit_unconfigured:
  "unconfigured cfg \<Longrightarrow>
     start_unit cfg r st = ((r, Rejected (env_error cfg)), settle r (Rejected (env_error cfg)) st)"
  by (auto simp: start_unit_def scrubDocument_start_def unconfigured_def env_error_def)

lemma start_all_unconfigured:
  "unconfigured cfg \<Longrightarrow>
     (\<forall>t\<in>set (fst (start_all cfg c st)). \<not> pending (snd t)) \<and>
     trace (snd (start_all cfg c st)) = trace st \<and>
     documents (snd (start_all cfg c st)) = documents st \<and>
     bucket (snd (start_all cfg c st)) = bucket st \<and>
     seen (snd (start_all cfg c st)) = seen st \<and>
     (c \<noteq> [] \<and> rejection st = None \<longrightarrow> rejection (snd (start_all cfg c st)) = Some (env_error cfg)) \<and>
     (rejection st \<noteq> None \<longrightarrow> rejection (snd (start_all cfg c st)) = rejection st)"
proof (induction c arbitrary: st)
  case Nil
  then show ?case by simp
next
  case (Cons r rs)
  let ?s = "settle r (Rejected (env_error cfg)) st"
  have s: "trace ?s = trace st \<and> documents ?s = documents st \<and> bucket ?s = bucket st \<and> seen ?s = seen st \<and>
           (rejection st = None \<longrightarrow> rejection ?s = Some (env_error cfg)) \<and>
           (rejection st \<noteq> None \<longrightarrow> rejection ?s = rejection st)"
    by (auto simp: settle_def)
  from Cons.IH [OF Cons.prems, of ?s] s show ?case
    by (auto simp: start_unit_unconfigured [OF Cons.prems] split_beta pending_def)
qed

lemma run_schedule_all_settled:
  "\<forall>t\<in>set ts. \<not> pending (snd t) \<Longrightarrow> run_schedule cfg picks ts st = (ts, st)"
proof (induction picks arbitrary: ts st)
  case Nil
  then show ?case by simp
next
  case (Cons i picks)
  show ?case
  proof (cases "i < length ts")
    case True
    then have "step_unit cfg (ts ! i) st = (ts ! i, st)"
      using Cons.prems by (simp add: step_unit_settled)
    then show ?thesis using True Cons by simp
  next
    case False
    then show ?thesis using Cons by simp
  qed
qed

lemma drain_all_settled:
  "\<forall>t\<in>set ts. \<not> pending (snd t) \<Longrightarrow> drain cfg ts st = (ts, st)"
  by (induction ts arbitrary: st) (simp_all add: finish_unit_settled)

lemma promise_all_unconfigured:
  assumes "unconfigured cfg"
  shows "promise_all cfg picks c st = start_all cfg c st"
  using start_all_unconfigured [OF assms, of c st]
  by (simp add: promise_all_def split_beta run_schedule_all_settled drain_all_settled)

lemma process_chunks_unconfigured:
  assumes "unconfigured cfg" "rejection st = None" "[] \<notin> set cs"
  shows "trace (process_chunks cfg sched n i cs st) = trace st \<and>
         documents (process_chunks cfg sched n i cs st) = documents st \<and>
         bucket (process_chunks cfg sched n i cs st) = bucket st \<and>
         rejection (process_chunks cfg sched n i cs st) = (if cs = [] then None else Some (env_error cfg))"
proof (cases cs)
  case Nil
  then show ?thesis using assms by simp
next
  case (Cons c cs')
  let ?s0 = "logger_info [chunk_line i n] st"
  have c: "c \<noteq> []" using assms(3) Cons by auto
  have r0: "rejection ?s0 = None" using assms(2) by (simp add: logger_info_def)
  from start_all_unconfigured [OF assms(1), of c ?s0] c r0
  have "trace (snd (start_all cfg c ?s0)) = trace st \<and> documents (snd (start_all cfg c ?s0)) = documents st \<and>
        bucket (snd (start_all cfg c ?s0)) = bucket st \<and> rejection (snd (start_all cfg c ?s0)) = Some (env_error cfg)"
    by (simp add: logger_info_def)
  then show ?thesis
    by (simp add: Cons promise_all_unconfigured [OF assms(1)] Let_def)
qed

lemma chunked_no_empty: "[] \<notin> set (chunked xs)"
proof (induction xs rule: chunked.induct)
  case (1 xs)
  show ?case
  proof (cases "xs = []")
    case True
    then show ?thesis by (simp add: chunked_Nil)
  next
    case False
    then show ?thesis using 1 by (simp add: chunked_nonempty)
  qed
qed

lemma chunked_empty_iff: "chunked xs = [] \<longleftrightarrow> xs = []"
  by (cases "xs = []") (simp_all add: chunked_Nil chunked_nonempty)

lemma loop_end_unconfigured:
  assumes "unconfigured cfg"
  shows "trace (loop_end cfg sched st) = [Query_deleted_documents] \<and>
         documents (loop_end cfg sched st) = documents st \<and>
         bucket (loop_end cfg sched st) = bucket st \<and>
         rejection (loop_end cfg sched st) = (if deletedDocuments st = [] then None else Some (env_error cfg))"
  using process_chunks_unconfigured [OF assms, of "loop_start st" "chunked (deletedDocuments st)" sched
      "length (chunked (deletedDocuments st))" 0]
  by (simp add: loop_end_def loop_start_fields chunked_no_empty chunked_empty_iff)

text \<open>The loop over the chunks, cut in two.\<close>

lemma process_chunks_append:
  "rejection st = None \<Longrightarrow>
   process_chunks cfg sched n i (cs @ cs') st =
     (if rejection (process_chunks cfg sched n i cs st) = None
      then process_chunks cfg sched n (i + length cs) cs' (process_chunks cfg sched n i cs st)
      else process_chunks cfg sched n i cs st)"
proof (induction cs arbitrary: i st)
  case Nil
  then show ?case by simp
next
  case (Cons c cs)
  let ?s1 = "snd (promise_all cfg (sched i) c (logger_info [chunk_line i n] st))"
  show ?case
  proof (cases "rejection ?s1 = None")
    case True
    then show ?thesis using Cons.IH [OF True, of "Suc i"] by (simp add: Let_def)
  next
    case False
    then show ?thesis by (simp add: Let_def del: not_None_eq)
  qed
qed

subsection \<open>The seen set\<close>

lemma resume_seen_mono: "seen st \<subseteq> seen (snd (resume cfg r p st))"
  using resume_seen [of cfg r p st] by auto

lemma resume_true_seen:
  "pending p \<Longrightarrow> fst (resume cfg r p st) = Resolved True \<Longrightarrow> uid r \<in> seen (snd (resume cfg r p st))"
  by (cases p) (auto simp: pending_def Let_def split: if_splits list.splits)

lemma start_not_true: "fst (scrubDocument_start cfg r st) \<noteq> Resolved True"
  by (simp add: scrubDocument_start_def)

lemma start_seen: "seen (snd (scrubDocument_start cfg r st)) = seen st"
  by (simp add: scrubDocument_start_def emit_def)

lemma settle_true_seen:
  "true_seen st \<Longrightarrow> (p = Resolved True \<longrightarrow> uid r \<in> seen st) \<Longrightarrow> true_seen (settle r p st)"
  by (cases p) (auto simp: settle_def true_seen_def)

lemma true_seen_mono:
  "true_seen st \<Longrightarrow> outcomes st' = outcomes st \<Longrightarrow> seen st \<subseteq> seen st' \<Longrightarrow> true_seen st'"
  by (auto simp: true_seen_def)

lemma true_seen_preserved: "preserved cfg true_seen"
proof (rule preservedI)
  fix r and st :: state assume a: "true_seen st"
  have "true_seen (snd (scrubDocument_start cfg r st))"
    using a by (rule true_seen_mono) (simp_all add: start_frame2 start_seen)
  then show "true_seen (snd (start_unit cfg r st))"
    by (simp add: start_unit_def split_beta settle_true_seen start_not_true)
next
  fix t and st :: state assume a: "true_seen st"
  show "true_seen (snd (step_unit cfg t st))"
  proof (cases "pending (snd t)")
    case True
    have "true_seen (snd (resume cfg (fst t) (snd t) st))"
      using a by (rule true_seen_mono) (simp_all add: resume_frame resume_seen_mono)
    then show ?thesis
      using True resume_true_seen [OF True, of cfg "fst t" st]
      by (simp add: step_unit_def split_beta settle_true_seen)
  next
    case False
    then show ?thesis using a by (simp add: step_unit_def)
  qed
next
  fix l and st :: state assume "true_seen st"
  then show "true_seen (logger_info l st)"
    by (simp add: logger_info_def true_seen_def)
qed

lemma start_all_seen: "seen (snd (start_all cfg c st)) = seen st"
  by (induction c arbitrary: st) (simp_all add: split_beta start_unit_frame)

lemma start_all_short_circuit:
  assumes "\<not> falsy (DUST_DATA_SOURCES_BUCKET cfg)" "\<not> falsy (SERVICE_ACCOUNT cfg)"
  shows "j < length c \<Longrightarrow> uid (c ! j) \<in> seen st \<Longrightarrow> fst (start_all cfg c st) ! j = (c ! j, Resolved False)"
proof (induction c arbitrary: j st)
  case Nil
  then show ?case by simp
next
  case (Cons r rs)
  show ?case
  proof (cases j)
    case 0
    then show ?thesis using Cons.prems assms
      by (simp add: split_beta start_unit_def scrubDocument_start_def)
  next
    case (Suc k)
    have "fst (start_all cfg rs (snd (start_unit cfg r st))) ! k = (rs ! k, Resolved False)"
      using Cons.prems Suc by (intro Cons.IH) (simp_all add: start_unit_frame)
    then show ?thesis using Suc by (simp add: split_beta)
  qed
qed

lemma same_uid:
  "data_source r2 = data_source r1 \<Longrightarrow> document_id r2 = document_id r1 \<Longrightarrow> hash r2 = hash r1 \<Longrightarrow>
   uid r2 = uid r1"
  by (simp add: uid_def)

lemma scrubDocument_seen:
  assumes "\<not> falsy (DUST_DATA_SOURCES_BUCKET cfg)" "\<not> falsy (SERVICE_ACCOUNT cfg)" "uid r \<in> seen st"
  shows "scrubDocument cfg r st = (Some (Inr False), st)"
  using assms
  by (simp add: scrubDocument_def scrubDocument_pc_def scrubDocument_start_def resume'_def)

subsection \<open>A second run\<close>

lemma preserved_onI:
  assumes "\<And>r st. r \<in> C \<Longrightarrow> P st \<Longrightarrow> W (fst (start_unit cfg r st)) \<and> P (snd (start_unit cfg r st))"
    and "\<And>t st. W t \<Longrightarrow> P st \<Longrightarrow> W (fst (step_unit cfg t st)) \<and> P (snd (step_unit cfg t st))"
    and "\<And>l st. P st \<Longrightarrow> P (logger_info l st)"
  shows "preserved_on cfg C W P"
  using assms unfolding preserved_on_def by blast

lemma on_start:
  "preserved_on cfg C W P \<Longrightarrow> r \<in> C \<Longrightarrow> P st \<Longrightarrow>
     W (fst (start_unit cfg r st)) \<and> P (snd (start_unit cfg r st))"
  unfolding preserved_on_def by blast

lemma on_step:
  "preserved_on cfg C W P \<Longrightarrow> W t \<Longrightarrow> P st \<Longrightarrow>
     W (fst (step_unit cfg t st)) \<and> P (snd (step_unit cfg t st))"
  unfolding preserved_on_def by blast

lemma on_log: "preserved_on cfg C W P \<Longrightarrow> P st \<Longrightarrow> P (logger_info l st)"
  unfolding preserved_on_def by blast

lemma on_finish_unit:
  assumes "preserved_on cfg C W P" "W t" "P st"
  shows "W (fst (finish_unit cfg t st)) \<and> P (snd (finish_unit cfg t st))"
proof -
  obtain t1 s1 where 1: "step_unit cfg t st = (t1, s1)" by (cases "step_unit cfg t st")
  obtain t2 s2 where 2: "step_unit cfg t1 s1 = (t2, s2)" by (cases "step_unit cfg t1 s1")
  obtain t3 s3 where 3: "step_unit cfg t2 s2 = (t3, s3)" by (cases "step_unit cfg t2 s2")
  obtain t4 s4 where 4: "step_unit cfg t3 s3 = (t4, s4)" by (cases "step_unit cfg t3 s3")
  have a1: "W t1 \<and> P s1" using on_step [OF assms] 1 by simp
  then have a2: "W t2 \<and> P s2" using on_step [OF assms(1), of t1 s1] 2 by simp
  then have a3: "W t3 \<and> P s3" using on_step [OF assms(1), of t2 s2] 3 by simp
  then have a4: "W t4 \<and> P s4" using on_step [OF assms(1), of t3 s3] 4 by simp
  then have "W (fst (step_unit cfg t4 s4)) \<and> P (snd (step_unit cfg t4 s4))"
    using on_step [OF assms(1), of t4 s4] by simp
  then show ?thesis by (simp add: finish_unit_def 1 2 3 4)
qed

lemma on_start_all:
  "preserved_on cfg C W P \<Longrightarrow> set c \<subseteq> C \<Longrightarrow> P st \<Longrightarrow>
     (\<forall>t\<in>set (fst (start_all cfg c st)). W t) \<and> P (snd (start_all cfg c st))"
proof (induction c arbitrary: st)
  case Nil
  then show ?case by simp
next
  case (Cons r rs)
  have rC: "r \<in> C" and rsC: "set rs \<subseteq> C" using Cons.prems(2) by simp_all
  have 1: "W (fst (start_unit cfg r st)) \<and> P (snd (start_unit cfg r st))"
    by (rule on_start [OF Cons.prems(1) rC Cons.prems(3)])
  then have p: "P (snd (start_unit cfg r st))" by simp
  have "(\<forall>t\<in>set (fst (start_all cfg rs (snd (start_unit cfg r st)))). W t) \<and>
        P (snd (start_all cfg rs (snd (start_unit cfg r st))))"
    by (rule Cons.IH [OF Cons.prems(1) rsC p])
  with 1 show ?case by (simp add: split_beta)
qed

lemma on_run_schedule:
  "preserved_on cfg C W P \<Longrightarrow> \<forall>t\<in>set ts. W t \<Longrightarrow> P st \<Longrightarrow>
     (\<forall>t\<in>set (fst (run_schedule cfg picks ts st)). W t) \<and> P (snd (run_schedule cfg picks ts st))"
proof (induction picks arbitrary: ts st)
  case Nil
  then show ?case by simp
next
  case (Cons i picks)
  show ?case
  proof (cases "i < length ts")
    case True
    let ?t = "fst (step_unit cfg (ts ! i) st)"
    let ?s = "snd (step_unit cfg (ts ! i) st)"
    have w: "W (ts ! i)" using True Cons.prems(2) by simp
    have 1: "W ?t \<and> P ?s" by (rule on_step [OF Cons.prems(1) w Cons.prems(3)])
    then have p: "P ?s" by simp
    have "set (ts[i := ?t]) \<subseteq> insert ?t (set ts)" by (rule set_update_subset_insert)
    then have ws: "\<forall>t\<in>set (ts[i := ?t]). W t"
      using 1 Cons.prems(2) by blast
    have "(\<forall>t\<in>set (fst (run_schedule cfg picks (ts[i := ?t]) ?s)). W t) \<and>
               P (snd (run_schedule cfg picks (ts[i := ?t]) ?s))"
      by (rule Cons.IH [OF Cons.prems(1) ws p])
    then show ?thesis using True by (simp add: split_beta)
  next
    case False
    then show ?thesis using Cons.IH [OF Cons.prems] by simp
  qed
qed

lemma on_drain:
  "preserved_on cfg C W P \<Longrightarrow> \<forall>t\<in>set ts. W t \<Longrightarrow> P st \<Longrightarrow>
     (\<forall>t\<in>set (fst (drain cfg ts st)). W t) \<and> P (snd (drain cfg ts st))"
proof (induction ts arbitrary: st)
  case Nil
  then show ?case by simp
next
  case (Cons t ts)
  have w: "W t" and ws: "\<forall>t\<in>set ts. W t" using Cons.prems(2) by simp_all
  have 1: "W (fst (finish_unit cfg t st)) \<and> P (snd (finish_unit cfg t st))"
    by (rule on_finish_unit [OF Cons.prems(1) w Cons.prems(3)])
  then have p: "P (snd (finish_unit cfg t st))" by simp
  have "(\<forall>t\<in>set (fst (drain cfg ts (snd (finish_unit cfg t st)))). W t) \<and>
        P (snd (drain cfg ts (snd (finish_unit cfg t st))))"
    by (rule Cons.IH [OF Cons.prems(1) ws p])
  with 1 show ?case by (simp add: split_beta)
qed

lemma on_promise_all:
  assumes "preserved_on cfg C W P" "set c \<subseteq> C" "P st"
  shows "P (snd (promise_all cfg picks c st))"
proof -
  let ?a = "start_all cfg c st"
  let ?b = "run_schedule cfg picks (fst ?a) (snd ?a)"
  have 1: "(\<forall>t\<in>set (fst ?a). W t) \<and> P (snd ?a)" using assms by (rule on_start_all)
  have 2: "(\<forall>t\<in>set (fst ?b). W t) \<and> P (snd ?b)"
    by (rule on_run_schedule [OF assms(1) conjunct1 [OF 1] conjunct2 [OF 1]])
  have "(\<forall>t\<in>set (fst (drain cfg (fst ?b) (snd ?b))). W t) \<and> P (snd (drain cfg (fst ?b) (snd ?b)))"
    by (rule on_drain [OF assms(1) conjunct1 [OF 2] conjunct2 [OF 2]])
  then have "P (snd (drain cfg (fst ?b) (snd ?b)))" by simp
  then show ?thesis by (simp add: promise_all_def split_beta)
qed

lemma on_process_chunks:
  "preserved_on cfg C W P \<Longrightarrow> \<forall>c\<in>set cs. set c \<subseteq> C \<Longrightarrow> P st \<Longrightarrow>
     P (process_chunks cfg sched n i cs st)"
proof (induction cs arbitrary: i st)
  case Nil
  then show ?case by simp
next
  case (Cons c cs)
  let ?st1 = "snd (promise_all cfg (sched i) c (logger_info [chunk_line i n] st))"
  have cC: "set c \<subseteq> C" and csC: "\<forall>c\<in>set cs. set c \<subseteq> C" using Cons.prems(2) by simp_all
  have "P (logger_info [chunk_line i n] st)" by (rule on_log [OF Cons.prems(1) Cons.prems(3)])
  then have 1: "P ?st1" by (rule on_promise_all [OF Cons.prems(1) cC])
  show ?case
  proof (cases "rejection ?st1 = None")
    case True
    have "P (process_chunks cfg sched n (Suc i) cs ?st1)"
      by (rule Cons.IH [OF Cons.prems(1) csC 1])
    then show ?thesis using True by (simp add: Let_def)
  next
    case False
    then show ?thesis using 1 by (auto simp: Let_def)
  qed
qed

lemma chunked_subset: "c \<in> set (chunked xs) \<Longrightarrow> set c \<subseteq> set xs"
proof -
  assume "c \<in> set (chunked xs)"
  then have "set c \<subseteq> set (concat (chunked xs))" by auto
  then show ?thesis by (simp add: concat_chunked)
qed

lemma on_loop_end:
  assumes "preserved_on cfg (set (deletedDocuments st)) W P" "P (loop_start st)"
  shows "P (loop_end cfg sched st)"
proof -
  have "\<forall>c\<in>set (chunked (deletedDocuments st)). set c \<subseteq> set (deletedDocuments st)"
    using chunked_subset by blast
  from on_process_chunks [OF assms(1) this assms(2)] show ?thesis by (simp add: loop_end_def)
qed

lemma idle_settle:
  "idle_state D B st \<Longrightarrow> p \<noteq> Resolved True \<Longrightarrow> idle_state D B (settle r p st)"
  by (cases p) (auto simp: settle_def idle_state_def)

lemma idle_start:
  assumes "kept D r" "idle_state D B st"
  shows "idle_task D (fst (start_unit cfg r st)) \<and> idle_state D B (snd (start_unit cfg r st))"
proof -
  let ?p = "fst (scrubDocument_start cfg r st)"
  let ?s = "snd (scrubDocument_start cfg r st)"
  have p: "?p = Await_more_recent \<or> ?p = Resolved False \<or> (\<exists>e. ?p = Rejected e)"
    by (simp add: scrubDocument_start_def)
  have s: "idle_state D B ?s"
    using assms(2) by (auto simp: scrubDocument_start_def idle_state_def emit_def)
  have "?p \<noteq> Resolved True" using p by auto
  with s have "idle_state D B (settle r ?p ?s)" by (rule idle_settle)
  with p assms(1) show ?thesis by (simp add: start_unit_def split_beta idle_task_def)
qed

lemma idle_step:
  assumes "idle_task D t" "idle_state D B st"
  shows "idle_task D (fst (step_unit cfg t st)) \<and> idle_state D B (snd (step_unit cfg t st))"
proof (cases "pending (snd t)")
  case False
  then show ?thesis using assms by (simp add: step_unit_def)
next
  case True
  with assms(1) have pc: "snd t = Await_more_recent" and k: "kept D (fst t)"
    by (auto simp: idle_task_def pending_def)
  have d: "documents st = D" using assms(2) by (simp add: idle_state_def)
  let ?p = "fst (resume cfg (fst t) (snd t) st)"
  let ?s = "snd (resume cfg (fst t) (snd t) st)"
  have p: "?p = Resolved False \<or> (\<exists>e. ?p = Rejected e)"
    using k d by (simp add: pc kept_def)
  have s: "?s = st" using k d by (simp add: pc kept_def)
  have "?p \<noteq> Resolved True" using p by auto
  with assms(2) have "idle_state D B (settle (fst t) ?p st)" by (rule idle_settle)
  with p k True show ?thesis by (auto simp: step_unit_def split_beta idle_task_def s)
qed

lemma idle_preserved:
  assumes "\<forall>r\<in>C. kept D r"
  shows "preserved_on cfg C (idle_task D) (idle_state D B)"
proof (rule preserved_onI)
  fix r and st :: state assume "r \<in> C" "idle_state D B st"
  then show "idle_task D (fst (start_unit cfg r st)) \<and> idle_state D B (snd (start_unit cfg r st))"
    using assms by (intro idle_start) auto
next
  fix t and st :: state assume "idle_task D t" "idle_state D B st"
  then show "idle_task D (fst (step_unit cfg t st)) \<and> idle_state D B (snd (step_unit cfg t st))"
    by (rule idle_step)
next
  fix l and st :: state assume "idle_state D B st"
  then show "idle_state D B (logger_info l st)" by (simp add: idle_state_def logger_info_def)
qed

text \<open>
  When every deleted row is kept by a live one, a run changes neither store, purges no
  unit, and makes no call but its queries.
\<close>

lemma run_on_kept_rows:
  assumes "\<forall>d\<in>set (documents st). status d = ''deleted'' \<longrightarrow> kept (documents st) d"
  shows "documents (snd (scrubDeletedCoreDocumentVersionsCheck cfg sched st)) = documents st \<and>
         bucket (snd (scrubDeletedCoreDocumentVersionsCheck cfg sched st)) = bucket st \<and>
         (\<forall>x\<in>set (outcomes (snd (scrubDeletedCoreDocumentVersionsCheck cfg sched st))). snd x \<noteq> Inr True) \<and>
         (\<forall>e\<in>set (trace (snd (scrubDeletedCoreDocumentVersionsCheck cfg sched st))). quiet e)"
proof -
  let ?D = "documents st" and ?B = "bucket st"
  have C: "\<forall>r\<in>set (deletedDocuments st). kept ?D r"
    using assms by (simp add: deletedDocuments_def)
  have "idle_state ?D ?B (loop_start st)"
    by (simp add: idle_state_def loop_start_fields)
  from on_loop_end [OF idle_preserved [OF C] this]
  have e: "idle_state ?D ?B (loop_end cfg sched st)" .
  then show ?thesis
    by (auto simp: run_unfold idle_state_def emit_def logger_info_def split: option.splits)
qed

lemma digit_char_plain: "d < 10 \<Longrightarrow> digit_char d \<noteq> CHR ''/'' \<and> digit_char d \<noteq> CHR ''-''"
proof -
  assume "d < 10"
  then have "d \<in> {0, 1, 2, 3, 4, 5, 6, 7, 8, 9}" by auto
  then show ?thesis by (auto simp: digit_char_def)
qed

lemma show_nat_plain: "c \<in> set (show_nat n) \<Longrightarrow> c \<noteq> CHR ''/'' \<and> c \<noteq> CHR ''-''"
proof (induction n rule: show_nat.induct)
  case (1 n)
  show ?case
  proof (cases "n < 10")
    case True
    then show ?thesis using 1(2) digit_char_plain [of n] by (subst (asm) show_nat.simps) auto
  next
    case False
    have "n mod 10 < 10" by simp
    then show ?thesis
      using 1 False digit_char_plain [of "n mod 10"] by (subst (asm) (2) show_nat.simps) auto
  qed
qed

lemma show_nat_nonempty: "show_nat n \<noteq> []"
  by (subst show_nat.simps) simp

lemma mark_plain:
  assumes "\<forall>c\<in>set ds. c \<noteq> CHR ''/'' \<and> c \<noteq> CHR ''-''" "ds \<noteq> []" "m = CHR ''/'' \<or> m = CHR ''-''"
  shows "mark (ds @ m # rest) = Some m" "mark (CHR ''-'' # ds @ m # rest) = Some m"
proof -
  obtain d ds' where ds: "ds = d # ds'" using assms(2) by (cases ds) auto
  then have "d \<noteq> CHR ''-''" using assms(1) by simp
  then have u: "unsigned (ds @ m # rest) = ds @ m # rest" by (simp add: ds)
  have dw: "dropWhile (\<lambda>c. c \<noteq> CHR ''/'' \<and> c \<noteq> CHR ''-'') (ds @ m # rest) = m # rest"
    using assms(1,3) by (auto simp: dropWhile_append)
  show "mark (ds @ m # rest) = Some m" by (simp add: mark_def u dw)
  show "mark (CHR ''-'' # ds @ m # rest) = Some m" by (simp add: mark_def dw)
qed

lemma mark_show_int:
  assumes "m = CHR ''/'' \<or> m = CHR ''-''"
  shows "mark (show_int i @ m # rest) = Some m"
proof (cases "i < 0")
  case True
  then show ?thesis
    using mark_plain(2) [of "show_nat (nat (- i))" m rest] assms show_nat_plain show_nat_nonempty
    by (simp add: show_int_def)
next
  case False
  then show ?thesis
    using mark_plain(1) [of "show_nat (nat i)" m rest] assms show_nat_plain show_nat_nonempty
    by (simp add: show_int_def)
qed

lemma uid_not_slashed: "\<not> slashed (uid r)"
  using mark_show_int [of "CHR ''-''" "data_source r" "document_id r @ ''-'' @ hash r"]
  by (simp add: slashed_def uid_def)

lemma listed_slashed: "f \<in> set (getFiles objs (path cfg s r)) \<Longrightarrow> slashed f"
proof -
  assume "f \<in> set (getFiles objs (path cfg s r))"
  then have "prefix (path cfg s r) f" by (simp add: getFiles_def)
  then obtain zs where "f = path cfg s r @ zs" by (auto simp: prefix_def)
  then have "f = show_int (project s) @ CHR ''/'' #
      (internal_id s @ ''/'' @ blake3_hex cfg (document_id r) @ ''/'' @ hash r @ zs)"
    by (simp add: path_def)
  then show ?thesis using mark_show_int [of "CHR ''/''" "project s"] by (simp add: slashed_def)
qed

lemma gone_purge: "gone docs x \<Longrightarrow> gone (purge r docs) x"
  by (auto simp: gone_def purge_def)

lemma gone_purge_self: "gone (purge r docs) r"
  by (auto simp: gone_def purge_def)

lemma kept_purge: "kept docs x \<Longrightarrow> kept (purge r docs) x"
proof -
  let ?P = "\<lambda>d. same_version x d \<and> status d \<noteq> ''deleted'' \<and> created x \<le> created d"
  assume "kept docs x"
  then have "filter ?P docs \<noteq> []" by (auto simp: kept_def moreRecentSameHash_def)
  then obtain d where "d \<in> set docs" "?P d" by (auto simp: filter_empty_conv)
  then have "d \<in> set (purge r docs)" "?P d" by (auto simp: purge_def)
  then have "filter ?P (purge r docs) \<noteq> []" by (auto simp: filter_empty_conv)
  then show ?thesis by (cases "filter ?P (purge r docs)") (simp_all add: kept_def moreRecentSameHash_def)
qed

lemma accounted_purge: "accounted docs x \<Longrightarrow> accounted (purge r docs) x"
  by (auto simp: accounted_def gone_purge kept_purge)

lemma gone_same_version: "same_version r r' \<Longrightarrow> gone docs r \<Longrightarrow> gone docs r'"
  by (auto simp: gone_def same_version_def)

text \<open>What one resumption does to the rows and to the seen set.\<close>

lemma resume_shape:
  assumes "pending p" "listed_ok p"
  shows "(documents (snd (resume cfg r p st)) = documents st \<and> seen (snd (resume cfg r p st)) = seen st \<and>
          fst (resume cfg r p st) \<noteq> Resolved True \<and>
          (fst (resume cfg r p st) = Resolved False \<longrightarrow> kept (documents st) r) \<and>
          listed_ok (fst (resume cfg r p st))) \<or>
         (\<exists>s files. p = Await_purge s files \<and> (\<forall>f\<in>set files. slashed f) \<and>
            fst (resume cfg r p st) = Resolved True \<and>
            documents (snd (resume cfg r p st)) = purge r (documents st) \<and>
            seen (snd (resume cfg r p st)) = insert (uid r) (seen st \<union> set files))"
proof (cases p)
  case Await_more_recent
  then show ?thesis by (simp add: emit_def listed_ok_def kept_def)
next
  case Await_data_source
  then show ?thesis by (simp add: emit_def listed_ok_def split: list.splits)
next
  case (Await_files s)
  then show ?thesis using listed_slashed [of _ "bucket st" cfg s r]
    by (simp add: emit_def logger_info_def listed_ok_def Let_def)
next
  case (Await_deletes s files dels)
  then show ?thesis using assms(2)
    by (simp add: emit_def listed_ok_def Let_def split: list.splits)
next
  case (Await_purge s files)
  then show ?thesis using assms(2)
    by (simp add: emit_def logger_info_def listed_ok_def)
next
  case (Resolved b)
  then show ?thesis using assms(1) by (simp add: pending_def)
next
  case (Rejected e)
  then show ?thesis using assms(1) by (simp add: pending_def)
qed

lemma sound_settle_other:
  assumes "sound_state C D st" "r \<in> C" "p \<noteq> Resolved True"
    "p = Resolved False \<longrightarrow> gone (documents st) r \<or> kept (documents st) r"
  shows "sound_state C D (settle r p st)"
proof (cases p)
  case (Resolved b)
  with assms(3) have b: "b = False" by simp
  show ?thesis using assms
    by (auto simp: Resolved b settle_def sound_state_def accounted_def)
next
  case (Rejected e)
  show ?thesis using assms
    by (auto simp: Rejected settle_def sound_state_def accounted_def)
qed (use assms in \<open>auto simp: settle_def\<close>)

lemma sound_start:
  assumes apart: "keys_apart C" and "r \<in> C" "sound_state C D st"
  shows "sound_task C (fst (start_unit cfg r st)) \<and> sound_state C D (snd (start_unit cfg r st))"
proof -
  let ?p = "fst (scrubDocument_start cfg r st)"
  let ?s = "snd (scrubDocument_start cfg r st)"
  have same: "documents ?s = documents st" "seen ?s = seen st" "outcomes ?s = outcomes st"
    by (simp_all add: scrubDocument_start_def emit_def)
  then have s: "sound_state C D ?s" using assms(3) by (simp add: sound_state_def)
  have p: "?p \<noteq> Resolved True" "listed_ok ?p"
    by (simp_all add: scrubDocument_start_def listed_ok_def)
  have f: "?p = Resolved False \<longrightarrow> gone (documents ?s) r"
  proof
    assume "?p = Resolved False"
    then have "uid r \<in> seen st" by (simp add: scrubDocument_start_def split: if_splits)
    with assms(3) uid_not_slashed [of r]
    obtain x where x: "x \<in> set (outcomes st)" "snd x = Inr True" "uid (fst x) = uid r"
      by (auto simp: sound_state_def)
    with assms(3) have "fst x \<in> C" "gone (documents st) (fst x)"
      by (auto simp: sound_state_def accounted_def)
    moreover from this x(3) assms(2) apart have "same_version (fst x) r"
      by (auto simp: keys_apart_def)
    ultimately show "gone (documents ?s) r" using gone_same_version by (simp add: same)
  qed
  have "sound_state C D (settle r ?p ?s)"
    using s assms(2) p(1) f by (intro sound_settle_other) auto
  then show ?thesis using assms(2) p(2) by (simp add: start_unit_def split_beta sound_task_def)
qed

lemma sound_step:
  assumes "sound_task C t" "sound_state C D st"
  shows "sound_task C (fst (step_unit cfg t st)) \<and> sound_state C D (snd (step_unit cfg t st))"
proof (cases "pending (snd t)")
  case False
  then show ?thesis using assms by (simp add: step_unit_def)
next
  case True
  let ?r = "fst t"
  let ?p = "fst (resume cfg ?r (snd t) st)"
  let ?s = "snd (resume cfg ?r (snd t) st)"
  have rC: "?r \<in> C" and ok: "listed_ok (snd t)" using assms(1) by (simp_all add: sound_task_def)
  have out: "outcomes ?s = outcomes st" by (simp add: resume_frame)
  from resume_shape [OF True ok, of cfg ?r st] show ?thesis
  proof (elim disjE conjE exE)
    assume a: "documents ?s = documents st" "seen ?s = seen st" "?p \<noteq> Resolved True"
      "?p = Resolved False \<longrightarrow> kept (documents st) ?r" "listed_ok ?p"
    have s: "sound_state C D ?s" using assms(2) a(1,2) out by (simp add: sound_state_def)
    have "sound_state C D (settle ?r ?p ?s)"
      using s rC a(3) a(4) by (intro sound_settle_other) (auto simp: a(1))
    then show ?thesis using True rC a(5) by (simp add: step_unit_def split_beta sound_task_def)
  next
    fix s files
    assume a: "snd t = Await_purge s files" "\<forall>f\<in>set files. slashed f" "?p = Resolved True"
      "documents ?s = purge ?r (documents st)" "seen ?s = insert (uid ?r) (seen st \<union> set files)"
    have "set (documents ?s) \<subseteq> set D" using assms(2) by (auto simp: a(4) sound_state_def purge_def)
    moreover have "\<forall>x\<in>set (outcomes st @ [(?r, Inr True)]). fst x \<in> C \<and> accounted (documents ?s) x"
      using assms(2) rC by (auto simp: a(4) sound_state_def accounted_purge)
        (simp add: accounted_def gone_purge_self)
    moreover have "\<forall>k\<in>seen ?s. slashed k \<or>
        (\<exists>x\<in>set (outcomes st @ [(?r, Inr True)]). snd x = Inr True \<and> uid (fst x) = k)"
      using assms(2) a(2) by (auto simp: a(5) sound_state_def)
    ultimately have "sound_state C D (settle ?r ?p ?s)"
      by (simp add: a(3) settle_def sound_state_def out)
    then show ?thesis using True rC
      by (simp add: step_unit_def split_beta sound_task_def a(3) listed_ok_def)
  qed
qed

lemma sound_preserved:
  assumes "keys_apart C"
  shows "preserved_on cfg C (sound_task C) (sound_state C D)"
proof (rule preserved_onI)
  fix r and st :: state assume "r \<in> C" "sound_state C D st"
  then show "sound_task C (fst (start_unit cfg r st)) \<and> sound_state C D (snd (start_unit cfg r st))"
    by (rule sound_start [OF assms])
next
  fix t and st :: state assume "sound_task C t" "sound_state C D st"
  then show "sound_task C (fst (step_unit cfg t st)) \<and> sound_state C D (snd (step_unit cfg t st))"
    by (rule sound_step)
next
  fix l and st :: state assume "sound_state C D st"
  then show "sound_state C D (logger_info l st)" by (simp add: sound_state_def logger_info_def)
qed

lemma kept_after_run:
  assumes run: "scrubDeletedCoreDocumentVersionsCheck cfg sched st = (Inr (), st1)"
    and apart: "keys_apart (set (deletedDocuments st))"
  shows "\<forall>d\<in>set (documents st1). status d = ''deleted'' \<longrightarrow> kept (documents st1) d"
proof (intro ballI impI)
  fix d assume d: "d \<in> set (documents st1)" "status d = ''deleted''"
  let ?C = "set (deletedDocuments st)"
  let ?e = "loop_end cfg sched st"
  from run have rej: "rejection ?e = None"
    and st1: "st1 = emit [Report_success []] (logger_info [done_line (deletedCount ?e)] ?e)"
    by (auto simp: run_unfold split: if_splits option.splits)
  have docs: "documents st1 = documents ?e" by (simp add: st1 emit_def logger_info_def)
  have "sound_state ?C (documents st) (loop_start st)"
    by (simp add: sound_state_def loop_start_fields)
  from on_loop_end [OF sound_preserved [OF apart] this]
  have sound: "sound_state ?C (documents st) ?e" .
  then have "d \<in> set (documents st)" using d(1) by (auto simp: docs sound_state_def)
  then have "d \<in> ?C" using d(2) by (simp add: deletedDocuments_def)
  moreover have "mset (map fst (outcomes ?e)) = mset (deletedDocuments st)"
    by (rule loop_end_rows [OF rej])
  then have "set (map fst (outcomes ?e)) = ?C" by (rule mset_eq_setD)
  ultimately have "d \<in> fst ` set (outcomes ?e)" by simp
  then obtain x where x: "x \<in> set (outcomes ?e)" "fst x = d" by auto
  then obtain b where b: "snd x = Inr b"
    using loop_end_failure_rejects [of cfg sched st] rej by (auto simp: failure_rejects_def)
  have "accounted (documents ?e) x" using sound x(1) by (simp add: sound_state_def)
  then have "gone (documents ?e) d \<or> kept (documents ?e) d"
    unfolding accounted_def using b x(2) by (cases b) simp_all
  moreover have "same_version d d" by (simp add: same_version_def)
  then have "\<not> gone (documents ?e) d"
    unfolding gone_def using d by (auto simp: docs)
  ultimately show "kept (documents st1) d" by (simp add: docs)
qed

text \<open>
  When no two candidates of different versions have the same key, a second run on
  the state left by a run without error changes neither store, purges no unit, and
  makes no call but its queries.
\<close>

lemma second_run_changes_nothing:
  assumes "scrubDeletedCoreDocumentVersionsCheck cfg sched st = (Inr (), st1)"
    and "\<forall>r\<in>set (deletedDocuments st). \<forall>r'\<in>set (deletedDocuments st).
           uid r = uid r' \<longrightarrow>
           data_source r' = data_source r \<and> document_id r' = document_id r \<and> hash r' = hash r"
  shows "documents (snd (scrubDeletedCoreDocumentVersionsCheck cfg' sched' st1)) = documents st1 \<and>
         bucket (snd (scrubDeletedCoreDocumentVersionsCheck cfg' sched' st1)) = bucket st1 \<and>
         (\<forall>x\<in>set (outcomes (snd (scrubDeletedCoreDocumentVersionsCheck cfg' sched' st1))). snd x \<noteq> Inr True) \<and>
         (\<forall>e\<in>set (trace (snd (scrubDeletedCoreDocumentVersionsCheck cfg' sched' st1))). quiet e)"
proof -
  have "keys_apart (set (deletedDocuments st))"
    unfolding keys_apart_def same_version_def using assms(2) by blast
  from run_on_kept_rows [OF kept_after_run [OF assms(1) this]] show ?thesis .
qed

subsection \<open>The key of line 265\<close>

lemma digit_char_inj: "d < 10 \<Longrightarrow> d' < 10 \<Longrightarrow> digit_char d = digit_char d' \<Longrightarrow> d = d'"
proof -
  assume "d < 10" "d' < 10" and eq: "digit_char d = digit_char d'"
  then have "d \<in> {0, 1, 2, 3, 4, 5, 6, 7, 8, 9}" "d' \<in> {0, 1, 2, 3, 4, 5, 6, 7, 8, 9}" by auto
  with eq show ?thesis by (auto simp: digit_char_def)
qed

lemma show_nat_inj: "show_nat n = show_nat m \<Longrightarrow> n = m"
proof (induction n arbitrary: m rule: show_nat.induct)
  case (1 n)
  have n10: "n mod 10 < 10" and m10: "m mod 10 < 10" by simp_all
  show ?case
  proof (cases "n < 10")
    case True
    show ?thesis
    proof (cases "m < 10")
      case m: True
      from 1(2) True m have "digit_char n = digit_char m"
        by (simp add: show_nat.simps [of n] show_nat.simps [of m])
      then show ?thesis using True m by (rule digit_char_inj [rotated 2])
    next
      case m: False
      from 1(2) True m have "[digit_char n] = show_nat (m div 10) @ [digit_char (m mod 10)]"
        by (simp add: show_nat.simps [of n] show_nat.simps [of m])
      then show ?thesis using show_nat_nonempty [of "m div 10"] by simp
    qed
  next
    case False
    show ?thesis
    proof (cases "m < 10")
      case m: True
      from 1(2) False m have "show_nat (n div 10) @ [digit_char (n mod 10)] = [digit_char m]"
        by (simp add: show_nat.simps [of n] show_nat.simps [of m])
      then show ?thesis using show_nat_nonempty [of "n div 10"] by simp
    next
      case m: False
      from 1(2) False m
      have "show_nat (n div 10) @ [digit_char (n mod 10)] = show_nat (m div 10) @ [digit_char (m mod 10)]"
        by (simp add: show_nat.simps [of n] show_nat.simps [of m])
      then have a: "show_nat (n div 10) = show_nat (m div 10)"
        and b: "digit_char (n mod 10) = digit_char (m mod 10)" by simp_all
      from 1(1) [OF False a] have "n div 10 = m div 10" .
      moreover from digit_char_inj [OF n10 m10 b] have "n mod 10 = m mod 10" .
      ultimately show ?thesis by (metis div_mult_mod_eq)
    qed
  qed
qed

lemma split_first:
  "\<forall>c\<in>set A. c \<noteq> s \<Longrightarrow> \<forall>c\<in>set B. c \<noteq> s \<Longrightarrow> A @ s # x = B @ s # y \<Longrightarrow> A = B \<and> x = y"
proof (induction A arbitrary: B)
  case Nil
  then show ?case by (cases B) auto
next
  case (Cons a A)
  then show ?case by (cases B) auto
qed

lemma split_last:
  assumes "s \<notin> set h" "s \<notin> set h'" "x @ s # h = y @ s # h'"
  shows "x = y \<and> h = h'"
proof -
  from assms(3) have "rev (x @ s # h) = rev (y @ s # h')" by simp
  then have "rev h @ s # rev x = rev h' @ s # rev y" by simp
  moreover have "\<forall>c\<in>set (rev h). c \<noteq> s" "\<forall>c\<in>set (rev h'). c \<noteq> s" using assms(1,2) by auto
  ultimately have "rev h = rev h' \<and> rev x = rev y" by (intro split_first) auto
  then show ?thesis by simp
qed

lemma show_nat_no_dash: "\<forall>c\<in>set (show_nat n). c \<noteq> CHR ''-''"
  using show_nat_plain by blast

lemma show_int_split:
  assumes "show_int i @ CHR ''-'' # x = show_int j @ CHR ''-'' # y"
  shows "i = j \<and> x = y"
proof -
  have hd_nat: "\<And>n. \<exists>c cs. show_nat n = c # cs \<and> c \<noteq> CHR ''-''"
  proof -
    fix n
    obtain c cs where "show_nat n = c # cs" using show_nat_nonempty [of n] by (cases "show_nat n") auto
    moreover from this have "c \<noteq> CHR ''-''" using show_nat_no_dash [of n] by simp
    ultimately show "\<exists>c cs. show_nat n = c # cs \<and> c \<noteq> CHR ''-''" by blast
  qed
  show ?thesis
  proof (cases "i < 0")
    case i: True
    show ?thesis
    proof (cases "j < 0")
      case j: True
      from assms i j have "show_nat (nat (- i)) @ CHR ''-'' # x = show_nat (nat (- j)) @ CHR ''-'' # y"
        by (simp add: show_int_def)
      from split_first [OF show_nat_no_dash show_nat_no_dash this]
      have "show_nat (nat (- i)) = show_nat (nat (- j))" "x = y" by simp_all
      then show ?thesis using show_nat_inj i j by fastforce
    next
      case j: False
      obtain c cs where "show_nat (nat j) = c # cs" "c \<noteq> CHR ''-''" using hd_nat by blast
      with assms i j show ?thesis by (simp add: show_int_def)
    qed
  next
    case i: False
    show ?thesis
    proof (cases "j < 0")
      case j: True
      obtain c cs where "show_nat (nat i) = c # cs" "c \<noteq> CHR ''-''" using hd_nat by blast
      with assms i j show ?thesis by (simp add: show_int_def)
    next
      case j: False
      from assms i j have "show_nat (nat i) @ CHR ''-'' # x = show_nat (nat j) @ CHR ''-'' # y"
        by (simp add: show_int_def)
      from split_first [OF show_nat_no_dash show_nat_no_dash this]
      have "show_nat (nat i) = show_nat (nat j)" "x = y" by simp_all
      then show ?thesis using show_nat_inj i j by fastforce
    qed
  qed
qed

text \<open>Line 265 tells the versions apart when the hashes do not contain the separator.\<close>

lemma uid_inj:
  assumes "CHR ''-'' \<notin> set (hash r)" "CHR ''-'' \<notin> set (hash r')" "uid r = uid r'"
  shows "same_version r r'"
proof -
  from assms(3) have "show_int (data_source r) @ CHR ''-'' # (document_id r @ CHR ''-'' # hash r) =
      show_int (data_source r') @ CHR ''-'' # (document_id r' @ CHR ''-'' # hash r')"
    by (simp add: uid_def)
  from show_int_split [OF this]
  have ds: "data_source r = data_source r'"
    and rest: "document_id r @ CHR ''-'' # hash r = document_id r' @ CHR ''-'' # hash r'" by simp_all
  from split_last [OF assms(1,2) rest] ds show ?thesis by (simp add: same_version_def)
qed

lemma data_sources_preserved: "preserved cfg (\<lambda>st. data_sources st = S)"
  by (rule preservedI) (simp_all add: start_unit_frame step_unit_def split_beta settle_frame resume_frame logger_info_def)

lemma run_data_sources:
  "data_sources (snd (scrubDeletedCoreDocumentVersionsCheck cfg sched st)) = data_sources st"
proof -
  have "data_sources (loop_start st) = data_sources st" by (simp add: loop_start_fields)
  from process_chunks_preserved [OF data_sources_preserved this]
  have "data_sources (loop_end cfg sched st) = data_sources st" by (simp add: loop_end_def)
  then show ?thesis by (simp add: run_unfold emit_def logger_info_def split: option.splits)
qed

subsection \<open>A failure and the other units of the chunk\<close>








subsection \<open>The rows a run removes\<close>






subsection \<open>Two runs on a store with a key clash\<close>

text \<open>
  When a hash contains the separator of the key, two versions can have the same key.
  The first and the last of the thirty-three candidates of \<open>st_clash\<close> do. A first run
  ends without error: it purges the first, marks the key seen, and in its second chunk
  passes over the last as already seen, leaving its row and its object. A second run on
  the state the first one left purges that row and deletes that object.
\<close>

lemma first_run_clash:
  "map_prod id (\<lambda>st. (stores st, deletedCount st))
     (scrubDeletedCoreDocumentVersionsCheck cfg_ok no_picks st_clash) =
   (Inr (), (rows_kept @ [row_second, row_keeper], [src1], [blob2]), 1)"
  by code_simp

lemma second_run_clash:
  "map_prod id (\<lambda>st. (stores st, deletedCount st))
     (scrubDeletedCoreDocumentVersionsCheck cfg_ok no_picks
        (snd (scrubDeletedCoreDocumentVersionsCheck cfg_ok no_picks st_clash))) =
   (Inr (), (rows_kept @ [row_keeper], [src1], []), 1)"
  by code_simp

lemma uid_clash: "uid row_first = ''1-a-b-c'' \<and> uid row_second = ''1-a-b-c''"
  by code_simp

section \<open>The claims\<close>

text \<open>
  C1. Let a deleted version \<open>r\<close> be given (source, document, hash, and its creation time as
  \<^verbatim>\<open>deletedAt\<close>), and let the metadata store hold a row \<open>d\<close> of the same source, document
  and hash that is not deleted and was created at or after that time. Then
  \<^verbatim>\<open>scrubDocument\<close> leaves everything as it is, apart from the record of the one query
  it may have issued (the query for a more recent version): no listing, no blob
  delete, no purge. The unit is not counted as purged, and when the bucket and the
  service account are configured and that query answers, the call returns \<^verbatim>\<open>false\<close>.
\<close>

theorem live_version_skips_unit:
  assumes "d \<in> set (documents st)" "data_source d = data_source r" "document_id d = document_id r"
    "hash d = hash r" "status d \<noteq> ''deleted''" "created r \<le> created d"
  shows "(snd (scrubDocument cfg r st) = st \<or>
          snd (scrubDocument cfg r st) =
            emit [Query_more_recent (data_source r) (document_id r) (hash r) (created r)] st) \<and>
         fst (scrubDocument cfg r st) \<noteq> Some (Inr True) \<and>
         (\<not> falsy (DUST_DATA_SOURCES_BUCKET cfg) \<and> \<not> falsy (SERVICE_ACCOUNT cfg) \<and>
          \<not> io_fails cfg r Io_more_recent \<longrightarrow> fst (scrubDocument cfg r st) = Some (Inr False))"
  using live_found [OF assms]
  by (simp add: scrubDocument_def scrubDocument_pc_def scrubDocument_start_def resume'_def emit_def)

theorem live_version_skips_unit_witness:
  "rowB_active \<in> set (documents st_live) \<and> data_source rowB_active = data_source rowA \<and>
   document_id rowB_active = document_id rowA \<and> hash rowB_active = hash rowA \<and>
   status rowB_active \<noteq> ''deleted'' \<and> created rowA \<le> created rowB_active \<and>
   \<not> falsy (DUST_DATA_SOURCES_BUCKET cfg_ok) \<and> \<not> falsy (SERVICE_ACCOUNT cfg_ok) \<and>
   \<not> io_fails cfg_ok rowA Io_more_recent \<and>
   fst (scrubDocument cfg_ok rowA st_live) = Some (Inr False) \<and>
   snd (scrubDocument cfg_ok rowA st_live) =
     emit [Query_more_recent 1 ''doc-42'' ''h1'' 100] st_live"
proof -
  have h: "rowB_active \<in> set (documents st_live)" "data_source rowB_active = data_source rowA"
    "document_id rowB_active = document_id rowA" "hash rowB_active = hash rowA"
    "status rowB_active \<noteq> ''deleted''" "created rowA \<le> created rowB_active"
    by (simp_all add: st_live_def store_def rowA_def rowB_active_def version_def)
  have c: "\<not> falsy (DUST_DATA_SOURCES_BUCKET cfg_ok)" "\<not> falsy (SERVICE_ACCOUNT cfg_ok)"
    "\<not> io_fails cfg_ok rowA Io_more_recent"
    by (simp_all add: cfg_ok_def falsy_def)
  have u: "uid rowA \<notin> seen st_live"
    by (simp add: st_live_def store_def)
  have "snd (scrubDocument cfg_ok rowA st_live) \<noteq> st_live"
    using live_found [OF h] c u
    by (simp add: scrubDocument_def scrubDocument_pc_def scrubDocument_start_def resume'_def
        emit_def st_live_def store_def)
  with live_version_skips_unit [OF h, of cfg_ok] h c show ?thesis
    by (simp add: rowA_def version_def)
qed







text \<open>
  C4. Take a call of \<^verbatim>\<open>scrubDocument\<close> that issues the purge, and split the calls it
  makes at the purge. No blob delete is issued or settles after the purge. Every delete
  issued before it has settled before it, and did not fail. And a delete was issued for
  every object listed under the prefix of the unit that was not already marked seen.
\<close>

theorem deletes_before_purge:
  assumes "trace (snd (scrubDocument cfg r st)) = trace st @ pre @ Purge a b c # post"
  shows "(\<forall>f ok. File_delete f \<notin> set post \<and> File_delete_settled f ok \<notin> set post) \<and>
         (\<forall>f. File_delete f \<in> set pre \<longrightarrow> File_delete_settled f True \<in> set pre) \<and>
         (\<forall>s ss f. dataSourceData (data_sources st) r = s # ss \<and>
            f \<in> set (getFiles (bucket st) (path cfg s r)) \<and> f \<notin> seen st \<longrightarrow>
            File_delete f \<in> set pre)"
proof -
  let ?evs = "pre @ Purge a b c # post"
  have "Purge a b c \<in> set ?evs" by simp
  from scrubDocument_purge_calls [OF assms this]
  obtain s ss where src: "dataSourceData (data_sources st) r = s # ss"
    and evs: "?evs = ([Query_more_recent (data_source r) (document_id r) (hash r) (created r),
                  Query_data_source (data_source r), Get_files (path cfg s r)] @
                 map File_delete (filter (\<lambda>f. f \<notin> seen st) (getFiles (bucket st) (path cfg s r))) @
                 map (\<lambda>f. File_delete_settled f True)
                   (filter (\<lambda>f. f \<notin> seen st) (getFiles (bucket st) (path cfg s r)))) @
                 [Purge (data_source r) (document_id r) (hash r)]" (is "_ = ?A @ [?P]")
    by auto
  have "Purge a b c \<notin> set ?A" by auto
  with evs have "pre = ?A \<and> post = [] \<and> Purge a b c = ?P"
    using split_at_last [of ?A ?P pre "Purge a b c" post] by simp
  then have pre: "pre = ?A" and post: "post = []" by simp_all
  show ?thesis using src by (auto simp: pre post)
qed

theorem deletes_before_purge_witness:
  "trace (snd (scrubDocument cfg_ok rowA st_one)) =
     trace st_one @
     [Query_more_recent 1 ''doc-42'' ''h1'' 100, Query_data_source 1, Get_files ''7/i1/doc-42/h1'',
      File_delete blob1, File_delete_settled blob1 True] @
     Purge 1 ''doc-42'' ''h1'' # [] \<and>
   dataSourceData (data_sources st_one) rowA = src1 # [] \<and>
   blob1 \<in> set (getFiles (bucket st_one) (path cfg_ok src1 rowA)) \<and> blob1 \<notin> seen st_one \<and>
   File_delete blob1 \<in> set [Query_more_recent 1 ''doc-42'' ''h1'' 100, Query_data_source 1,
      Get_files ''7/i1/doc-42/h1'', File_delete blob1, File_delete_settled blob1 True] \<and>
   File_delete_settled blob1 True \<in> set [Query_more_recent 1 ''doc-42'' ''h1'' 100, Query_data_source 1,
      Get_files ''7/i1/doc-42/h1'', File_delete blob1, File_delete_settled blob1 True]"
proof -
  have h: "trace (snd (scrubDocument cfg_ok rowA st_one)) =
     trace st_one @
     [Query_more_recent 1 ''doc-42'' ''h1'' 100, Query_data_source 1, Get_files ''7/i1/doc-42/h1'',
      File_delete blob1, File_delete_settled blob1 True] @
     Purge 1 ''doc-42'' ''h1'' # []"
    by code_simp
  have s: "dataSourceData (data_sources st_one) rowA = src1 # [] \<and>
    blob1 \<in> set (getFiles (bucket st_one) (path cfg_ok src1 rowA)) \<and> blob1 \<notin> seen st_one"
    by code_simp
  from deletes_before_purge [OF h] h s show ?thesis by blast
qed

text \<open>
  C5. The hash of a version is a digest: a string without the separator \<^verbatim>\<open>-\<close> of the
  key of line 265 (a hex digest is one). Let the hashes of the candidates of a first run
  be such strings, and let that run end without error. Then a second run on the state
  it left, whatever its configuration, its schedule and the failures of its calls,
  changes neither the rows, nor the sources, nor the bucket; none of its units returns
  \<^verbatim>\<open>true\<close>; and it makes no call but its queries for the candidates and for live
  rows: no listing, no blob delete, no purge.
\<close>

theorem second_run_after_clean_run:
  assumes "scrubDeletedCoreDocumentVersionsCheck cfg sched st = (Inr (), st1)"
    and "\<forall>r\<in>set (deletedDocuments st). CHR ''-'' \<notin> set (hash r)"
  shows "documents (snd (scrubDeletedCoreDocumentVersionsCheck cfg' sched' st1)) = documents st1 \<and>
         data_sources (snd (scrubDeletedCoreDocumentVersionsCheck cfg' sched' st1)) = data_sources st1 \<and>
         bucket (snd (scrubDeletedCoreDocumentVersionsCheck cfg' sched' st1)) = bucket st1 \<and>
         (\<forall>x\<in>set (outcomes (snd (scrubDeletedCoreDocumentVersionsCheck cfg' sched' st1))). snd x \<noteq> Inr True) \<and>
         (\<forall>e\<in>set (trace (snd (scrubDeletedCoreDocumentVersionsCheck cfg' sched' st1))). quiet e)"
proof -
  have "\<forall>r\<in>set (deletedDocuments st). \<forall>r'\<in>set (deletedDocuments st).
           uid r = uid r' \<longrightarrow>
           data_source r' = data_source r \<and> document_id r' = document_id r \<and> hash r' = hash r"
  proof (intro ballI impI)
    fix r r' assume "r \<in> set (deletedDocuments st)" "r' \<in> set (deletedDocuments st)" "uid r = uid r'"
    with assms(2) have "same_version r r'" by (intro uid_inj) auto
    then show "data_source r' = data_source r \<and> document_id r' = document_id r \<and> hash r' = hash r"
      by (simp add: same_version_def)
  qed
  from second_run_changes_nothing [OF assms(1) this, of cfg' sched'] run_data_sources [of cfg' sched' st1]
  show ?thesis by simp
qed

theorem second_run_after_clean_run_witness:
  "fst (scrubDeletedCoreDocumentVersionsCheck cfg_ok no_picks st_held) = Inr () \<and>
   map hash (deletedDocuments st_held) = [''h1'', ''e''] \<and>
   documents (snd (scrubDeletedCoreDocumentVersionsCheck cfg_ok no_picks st_held)) = [row_held, row_keeper] \<and>
   bucket (snd (scrubDeletedCoreDocumentVersionsCheck cfg_ok no_picks st_held)) = [] \<and>
   deletedCount (snd (scrubDeletedCoreDocumentVersionsCheck cfg_ok no_picks st_held)) = 1 \<and>
   documents (snd (scrubDeletedCoreDocumentVersionsCheck cfg_ok no_picks
      (snd (scrubDeletedCoreDocumentVersionsCheck cfg_ok no_picks st_held)))) = [row_held, row_keeper] \<and>
   data_sources (snd (scrubDeletedCoreDocumentVersionsCheck cfg_ok no_picks
      (snd (scrubDeletedCoreDocumentVersionsCheck cfg_ok no_picks st_held)))) = [src1] \<and>
   bucket (snd (scrubDeletedCoreDocumentVersionsCheck cfg_ok no_picks
      (snd (scrubDeletedCoreDocumentVersionsCheck cfg_ok no_picks st_held)))) = [] \<and>
   outcomes (snd (scrubDeletedCoreDocumentVersionsCheck cfg_ok no_picks
      (snd (scrubDeletedCoreDocumentVersionsCheck cfg_ok no_picks st_held)))) = [(row_held, Inr False)] \<and>
   trace (snd (scrubDeletedCoreDocumentVersionsCheck cfg_ok no_picks
      (snd (scrubDeletedCoreDocumentVersionsCheck cfg_ok no_picks st_held)))) =
     [Query_deleted_documents, Query_more_recent 1 ''d'' ''e'' 100, Report_success []]"
proof -
  let ?one = "scrubDeletedCoreDocumentVersionsCheck cfg_ok no_picks st_held"
  let ?two = "scrubDeletedCoreDocumentVersionsCheck cfg_ok no_picks (snd ?one)"
  have a: "map_prod id (\<lambda>s. (stores s, deletedCount s)) ?one =
      (Inr (), ([row_held, row_keeper], [src1], []), 1)"
    by code_simp
  then have a1: "fst ?one = Inr ()" and a2: "documents (snd ?one) = [row_held, row_keeper]"
    and a3: "data_sources (snd ?one) = [src1]" and a4: "bucket (snd ?one) = []"
    and a5: "deletedCount (snd ?one) = 1"
    by (simp_all add: map_prod_def split_beta stores_def)
  from a1 have h1: "?one = (Inr (), snd ?one)" by (simp add: prod_eq_iff)
  have hs: "map hash (deletedDocuments st_held) = [''h1'', ''e'']" by code_simp
  have h2: "\<forall>r\<in>set (deletedDocuments st_held). CHR ''-'' \<notin> set (hash r)" by code_simp
  have t: "map_prod id (\<lambda>s. (outcomes s, trace s)) ?two =
      (Inr (), [(row_held, Inr False)],
       [Query_deleted_documents, Query_more_recent 1 ''d'' ''e'' 100, Report_success []])"
    by code_simp
  then have t1: "outcomes (snd ?two) = [(row_held, Inr False)]"
    and t2: "trace (snd ?two) = [Query_deleted_documents, Query_more_recent 1 ''d'' ''e'' 100, Report_success []]"
    by (simp_all add: map_prod_def split_beta)
  from second_run_after_clean_run [OF h1 h2, of cfg_ok no_picks] a2 a3 a4
  have 1: "documents (snd ?two) = [row_held, row_keeper]" "data_sources (snd ?two) = [src1]"
    "bucket (snd ?two) = []"
    by simp_all
  show ?thesis
    by (intro conjI) (fact a1, fact hs, fact a2, fact a4, fact a5, fact 1(1), fact 1(2), fact 1(3),
      fact t1, fact t2)
qed

text \<open>
  C6, as the code has it. Let the loop over the chunks have processed some chunks, and
  let a unit of one of them have resolved to \<^verbatim>\<open>true\<close>. Then in any chunk started
  from there, a candidate of the same source, document and hash is short-circuited by
  the seen set: its unit resolves to \<^verbatim>\<open>false\<close> at once, and the call changes nothing
  and issues nothing.
\<close>

theorem later_duplicate_short_circuits:
  assumes "\<not> falsy (DUST_DATA_SOURCES_BUCKET cfg)" "\<not> falsy (SERVICE_ACCOUNT cfg)"
    and "(r1, Inr True) \<in> set (outcomes (process_chunks cfg sched n i cs (loop_start st0)))"
    and "data_source r2 = data_source r1" "document_id r2 = document_id r1" "hash r2 = hash r1"
    and "j < length c" "c ! j = r2"
  shows "fst (promise_all cfg picks c (logger_info l (process_chunks cfg sched n i cs (loop_start st0)))) ! j =
           (r2, Resolved False) \<and>
         scrubDocument cfg r2 (process_chunks cfg sched n i cs (loop_start st0)) =
           (Some (Inr False), process_chunks cfg sched n i cs (loop_start st0))"
proof -
  let ?st1 = "process_chunks cfg sched n i cs (loop_start st0)"
  have "true_seen (loop_start st0)" by (simp add: true_seen_def loop_start_fields)
  then have "true_seen ?st1" by (rule process_chunks_preserved [OF true_seen_preserved])
  with assms(3) have "uid r1 \<in> seen ?st1" by (force simp: true_seen_def)
  then have u: "uid r2 \<in> seen ?st1" using same_uid [OF assms(4-6)] by simp
  then have u': "uid (c ! j) \<in> seen (logger_info l ?st1)" using assms(8) by (simp add: logger_info_def)
  have s: "fst (start_all cfg c (logger_info l ?st1)) ! j = (r2, Resolved False)"
    using start_all_short_circuit [OF assms(1,2) assms(7) u'] assms(8) by simp
  then have "\<not> pending (snd (fst (start_all cfg c (logger_info l ?st1)) ! j))" by (simp add: pending_def)
  from promise_all_keeps [OF assms(7) this, of picks] s
  have "fst (promise_all cfg picks c (logger_info l ?st1)) ! j = (r2, Resolved False)" by simp
  with scrubDocument_seen [OF assms(1,2) u] show ?thesis by simp
qed

theorem later_duplicate_short_circuits_witness:
  "\<not> falsy (DUST_DATA_SOURCES_BUCKET cfg_ok) \<and> \<not> falsy (SERVICE_ACCOUNT cfg_ok) \<and>
   chunked (deletedDocuments st_far) = [rowA # rows_kept, [rowB_deleted]] \<and>
   (rowA, Inr True) \<in> set (outcomes (process_chunks cfg_ok no_picks 2 0 [rowA # rows_kept] (loop_start st_far))) \<and>
   data_source rowB_deleted = data_source rowA \<and> document_id rowB_deleted = document_id rowA \<and>
   hash rowB_deleted = hash rowA \<and> (0::nat) < length [rowB_deleted] \<and> [rowB_deleted] ! 0 = rowB_deleted \<and>
   fst (promise_all cfg_ok (no_picks 1) [rowB_deleted]
          (logger_info [chunk_line 1 2]
             (process_chunks cfg_ok no_picks 2 0 [rowA # rows_kept] (loop_start st_far)))) ! 0 =
     (rowB_deleted, Resolved False)"
proof -
  have c: "\<not> falsy (DUST_DATA_SOURCES_BUCKET cfg_ok)" "\<not> falsy (SERVICE_ACCOUNT cfg_ok)"
    by (simp_all add: cfg_ok_def falsy_def)
  have k: "chunked (deletedDocuments st_far) = [rowA # rows_kept, [rowB_deleted]]"
    by code_simp
  have h: "(rowA, Inr True) \<in> set (outcomes (process_chunks cfg_ok no_picks 2 0 [rowA # rows_kept] (loop_start st_far)))"
    by code_simp
  have e: "data_source rowB_deleted = data_source rowA" "document_id rowB_deleted = document_id rowA"
    "hash rowB_deleted = hash rowA"
    by (simp_all add: rowA_def rowB_deleted_def version_def)
  have j: "(0::nat) < length [rowB_deleted]" "[rowB_deleted] ! 0 = rowB_deleted" by simp_all
  from later_duplicate_short_circuits [OF c h e j, of "no_picks 1" "[chunk_line 1 2]"] c k h e j
  show ?thesis by simp
qed

text \<open>
  Two deleted rows of one version in one chunk: both units list and purge, and both
  resolve to \<^verbatim>\<open>true\<close>. And two deleted rows of one version with a later live row:
  neither unit lists or purges.
\<close>

theorem duplicates_counterexample: "outcomes (snd (scrubDeletedCoreDocumentVersionsCheck cfg_ok no_picks st_dup)) =
     [(rowA, Inr True), (rowB_deleted, Inr True)] \<and>
   trace (snd (scrubDeletedCoreDocumentVersionsCheck cfg_ok no_picks st_dup)) =
     [Query_deleted_documents,
      Query_more_recent 1 ''doc-42'' ''h1'' 100, Query_more_recent 1 ''doc-42'' ''h1'' 150,
      Query_data_source 1, Get_files ''7/i1/doc-42/h1'',
      File_delete ''7/i1/doc-42/h1/content'', File_delete_settled ''7/i1/doc-42/h1/content'' True,
      Purge 1 ''doc-42'' ''h1'',
      Query_data_source 1, Get_files ''7/i1/doc-42/h1'', Purge 1 ''doc-42'' ''h1'',
      Report_success []] \<and>
   outcomes (snd (scrubDeletedCoreDocumentVersionsCheck cfg_ok no_picks st_dup_live)) =
     [(rowA, Inr False), (rowA2, Inr False)] \<and>
   trace (snd (scrubDeletedCoreDocumentVersionsCheck cfg_ok no_picks st_dup_live)) =
     [Query_deleted_documents,
      Query_more_recent 1 ''doc-42'' ''h1'' 100, Query_more_recent 1 ''doc-42'' ''h1'' 120,
      Report_success []]"
  by code_simp

text \<open>
  C7. A run never removes, adds or moves a row that is not deleted: the rows whose
  status is not \<^verbatim>\<open>deleted\<close> are the same, in the same order, after any run. And a call
  of \<^verbatim>\<open>scrubDocument\<close> leaves every row in place that is not a deleted row of its
  own source, document and hash.
\<close>

theorem active_rows_never_removed:
  "filter (\<lambda>d. status d \<noteq> ''deleted'') (documents (snd (scrubDeletedCoreDocumentVersionsCheck cfg sched st))) =
     filter (\<lambda>d. status d \<noteq> ''deleted'') (documents st) \<and>
   filter (\<lambda>d. \<not> (data_source d = data_source r \<and> document_id d = document_id r \<and> hash d = hash r \<and>
                   status d = ''deleted'')) (documents (snd (scrubDocument cfg r st))) =
     filter (\<lambda>d. \<not> (data_source d = data_source r \<and> document_id d = document_id r \<and> hash d = hash r \<and>
                   status d = ''deleted'')) (documents st)"
proof -
  have pc: "\<And>cs st. filter live (documents (process_chunks cfg sched (length cs) 0 cs st)) = filter live (documents st)"
    using process_chunks_preserved [OF live_preserved] by blast
  have "filter live (documents (snd (scrubDeletedCoreDocumentVersionsCheck cfg sched st))) = filter live (documents st)"
    by (simp add: scrubDeletedCoreDocumentVersionsCheck_def Let_def pc emit_def logger_info_def
        split: option.splits)
  then have 1: "filter (\<lambda>d. status d \<noteq> ''deleted'') (documents (snd (scrubDeletedCoreDocumentVersionsCheck cfg sched st))) =
     filter (\<lambda>d. status d \<noteq> ''deleted'') (documents st)"
    unfolding live_def .
  have "documents (snd (scrubDocument cfg r st)) = documents st \<or>
        documents (snd (scrubDocument cfg r st)) = purge r (documents st)"
    by (auto simp: scrubDocument_def scrubDocument_pc_def scrubDocument_start_def resume'_def
      emit_def logger_info_def Let_def split: if_splits list.splits)
  then have 2: "filter (\<lambda>d. \<not> (data_source d = data_source r \<and> document_id d = document_id r \<and> hash d = hash r \<and>
                   status d = ''deleted'')) (documents (snd (scrubDocument cfg r st))) =
     filter (\<lambda>d. \<not> (data_source d = data_source r \<and> document_id d = document_id r \<and> hash d = hash r \<and>
                   status d = ''deleted'')) (documents st)"
    by (auto simp: purge_def same_version_def)
  from 1 2 show ?thesis by blast
qed

theorem active_rows_never_removed_witness:
  "filter (\<lambda>d. status d \<noteq> ''deleted'')
     (documents (snd (scrubDeletedCoreDocumentVersionsCheck cfg_ok no_picks st_mixed))) = [row_other] \<and>
   rowA \<notin> set (documents (snd (scrubDeletedCoreDocumentVersionsCheck cfg_ok no_picks st_mixed))) \<and>
   filter (\<lambda>d. \<not> (data_source d = data_source rowA \<and> document_id d = document_id rowA \<and>
                   hash d = hash rowA \<and> status d = ''deleted''))
     (documents (snd (scrubDocument cfg_ok rowA st_mixed))) = [row_other]"
proof -
  have 1: "rowA \<notin> set (documents (snd (scrubDeletedCoreDocumentVersionsCheck cfg_ok no_picks st_mixed)))"
    by code_simp
  have 2: "filter (\<lambda>d. status d \<noteq> ''deleted'') (documents st_mixed) = [row_other]"
    by (simp add: st_mixed_def store_def rowA_def row_other_def version_def)
  have 3: "filter (\<lambda>d. \<not> (data_source d = data_source rowA \<and> document_id d = document_id rowA \<and>
                   hash d = hash rowA \<and> status d = ''deleted'')) (documents st_mixed) = [row_other]"
    by (simp add: st_mixed_def store_def rowA_def row_other_def version_def)
  from active_rows_never_removed [of cfg_ok no_picks st_mixed rowA] 1 2 3 show ?thesis by simp
qed

text \<open>
  C8, as the code has it. When a run ends without error, \<^verbatim>\<open>reportSuccess\<close> is called
  exactly once, as the last call of the run, with the empty object. The number of units
  purged is only logged: the last log line carries \<^verbatim>\<open>deletedCount\<close>, which is the
  number of calls of \<^verbatim>\<open>scrubDocument\<close> that resolved to \<^verbatim>\<open>true\<close>; the calls
  were made for exactly the candidates, one each, and none has rejected.
\<close>

theorem success_reported_once_with_empty_summary:
  assumes "scrubDeletedCoreDocumentVersionsCheck cfg sched st = (Inr (), st')"
  shows "(\<exists>evs. trace st' = evs @ [Report_success []] \<and> (\<forall>p. Report_success p \<notin> set evs)) \<and>
         (\<exists>ls. logs st' = ls @ [done_line (deletedCount st')]) \<and>
         deletedCount st' = length (filter (\<lambda>x. snd x = Inr True) (outcomes st')) \<and>
         mset (map fst (outcomes st')) = mset (deletedDocuments st) \<and>
         (\<forall>x\<in>set (outcomes st'). \<exists>b. snd x = Inr b)"
proof -
  let ?e = "loop_end cfg sched st"
  from assms have rej: "rejection ?e = None"
    and st': "st' = emit [Report_success []] (logger_info [done_line (deletedCount ?e)] ?e)"
    by (auto simp: run_unfold split: if_splits option.splits)
  have 1: "\<exists>evs. trace st' = evs @ [Report_success []] \<and> (\<forall>p. Report_success p \<notin> set evs)"
    using loop_end_no_report [of _ cfg sched st] by (simp add: st' emit_def logger_info_def)
  have 2: "\<exists>ls. logs st' = ls @ [done_line (deletedCount st')]"
    by (simp add: st' emit_def logger_info_def)
  have 3: "deletedCount st' = length (filter (\<lambda>x. snd x = Inr True) (outcomes st'))"
    using loop_end_counted [of cfg sched st] by (simp add: st' emit_def logger_info_def counted_def)
  have 4: "\<forall>x\<in>set (outcomes st'). \<exists>b. snd x = Inr b"
    using loop_end_failure_rejects [of cfg sched st] rej
    by (simp add: st' emit_def logger_info_def failure_rejects_def)
  have 5: "mset (map fst (outcomes st')) = mset (deletedDocuments st)"
    using loop_end_rows [OF rej] by (simp add: st' emit_def logger_info_def)
  from 1 2 3 4 5 show ?thesis by blast
qed

theorem success_reported_once_with_empty_summary_witness:
  "scrubDeletedCoreDocumentVersionsCheck cfg_ok no_picks st_one =
     (Inr (), snd (scrubDeletedCoreDocumentVersionsCheck cfg_ok no_picks st_one)) \<and>
   (\<exists>evs. trace (snd (scrubDeletedCoreDocumentVersionsCheck cfg_ok no_picks st_one)) =
            evs @ [Report_success []] \<and> (\<forall>p. Report_success p \<notin> set evs)) \<and>
   deletedCount (snd (scrubDeletedCoreDocumentVersionsCheck cfg_ok no_picks st_one)) =
     length (filter (\<lambda>x. snd x = Inr True)
       (outcomes (snd (scrubDeletedCoreDocumentVersionsCheck cfg_ok no_picks st_one)))) \<and>
   mset (map fst (outcomes (snd (scrubDeletedCoreDocumentVersionsCheck cfg_ok no_picks st_one)))) =
     mset (deletedDocuments st_one) \<and>
   outcomes (snd (scrubDeletedCoreDocumentVersionsCheck cfg_ok no_picks st_one)) = [(rowA, Inr True)]"
proof -
  have "fst (scrubDeletedCoreDocumentVersionsCheck cfg_ok no_picks st_one) = Inr ()"
    by code_simp
  then have h: "scrubDeletedCoreDocumentVersionsCheck cfg_ok no_picks st_one =
     (Inr (), snd (scrubDeletedCoreDocumentVersionsCheck cfg_ok no_picks st_one))"
    by (simp add: prod_eq_iff)
  have o: "outcomes (snd (scrubDeletedCoreDocumentVersionsCheck cfg_ok no_picks st_one)) = [(rowA, Inr True)]"
    by code_simp
  from success_reported_once_with_empty_summary [OF h] h o show ?thesis by blast
qed

text \<open>
  One unit is purged, and the summary reported is the empty object: it has no field
  \<^verbatim>\<open>unitsScrubbed\<close>.
\<close>

theorem empty_summary_counterexample: "fst (scrubDeletedCoreDocumentVersionsCheck cfg_ok no_picks st_one) = Inr () \<and>
   deletedCount (snd (scrubDeletedCoreDocumentVersionsCheck cfg_ok no_picks st_one)) = 1 \<and>
   trace (snd (scrubDeletedCoreDocumentVersionsCheck cfg_ok no_picks st_one)) =
     [Query_deleted_documents, Query_more_recent 1 ''doc-42'' ''h1'' 100, Query_data_source 1,
      Get_files ''7/i1/doc-42/h1'', File_delete ''7/i1/doc-42/h1/content'',
      File_delete_settled ''7/i1/doc-42/h1/content'' True, Purge 1 ''doc-42'' ''h1'',
      Report_success []]"
  by code_simp

text \<open>
  C9, as the code has it. Without the database URI the run throws before doing
  anything: no call is made and the stores are as before. Without the bucket or the
  service account (the URI being there) the candidates are still fetched; that query is
  the only call to a store, and the stores are as before; and when the fetch answers
  with at least one candidate, the run ends with the error of the missing variable.
\<close>

theorem missing_configuration:
  "(falsy (CORE_DATABASE_URI cfg) \<longrightarrow>
      fst (scrubDeletedCoreDocumentVersionsCheck cfg sched st) = Inl (Env_not_defined ''CORE_DATABASE_URI'') \<and>
      trace (snd (scrubDeletedCoreDocumentVersionsCheck cfg sched st)) = [] \<and>
      documents (snd (scrubDeletedCoreDocumentVersionsCheck cfg sched st)) = documents st \<and>
      bucket (snd (scrubDeletedCoreDocumentVersionsCheck cfg sched st)) = bucket st) \<and>
   (\<not> falsy (CORE_DATABASE_URI cfg) \<and>
    (falsy (DUST_DATA_SOURCES_BUCKET cfg) \<or> falsy (SERVICE_ACCOUNT cfg)) \<longrightarrow>
      (trace (snd (scrubDeletedCoreDocumentVersionsCheck cfg sched st)) = [Query_deleted_documents] \<or>
       trace (snd (scrubDeletedCoreDocumentVersionsCheck cfg sched st)) = [Query_deleted_documents, Report_success []]) \<and>
      documents (snd (scrubDeletedCoreDocumentVersionsCheck cfg sched st)) = documents st \<and>
      bucket (snd (scrubDeletedCoreDocumentVersionsCheck cfg sched st)) = bucket st \<and>
      (\<not> fetch_fails cfg \<and> deletedDocuments st \<noteq> [] \<longrightarrow>
         fst (scrubDeletedCoreDocumentVersionsCheck cfg sched st) =
           Inl (Env_not_defined (if falsy (DUST_DATA_SOURCES_BUCKET cfg) then ''DUST_DATA_SOURCES_BUCKET''
                                 else ''SERVICE_ACCOUNT'')) \<and>
         trace (snd (scrubDeletedCoreDocumentVersionsCheck cfg sched st)) = [Query_deleted_documents]))"
proof (intro conjI impI)
  assume "falsy (CORE_DATABASE_URI cfg)"
  then show "fst (scrubDeletedCoreDocumentVersionsCheck cfg sched st) = Inl (Env_not_defined ''CORE_DATABASE_URI'')"
    "trace (snd (scrubDeletedCoreDocumentVersionsCheck cfg sched st)) = []"
    "documents (snd (scrubDeletedCoreDocumentVersionsCheck cfg sched st)) = documents st"
    "bucket (snd (scrubDeletedCoreDocumentVersionsCheck cfg sched st)) = bucket st"
    by (simp_all add: run_unfold)
next
  assume a: "\<not> falsy (CORE_DATABASE_URI cfg) \<and>
    (falsy (DUST_DATA_SOURCES_BUCKET cfg) \<or> falsy (SERVICE_ACCOUNT cfg))"
  then have u: "unconfigured cfg" by (simp add: unconfigured_def)
  note e = loop_end_unconfigured [OF u, of sched st]
  show "trace (snd (scrubDeletedCoreDocumentVersionsCheck cfg sched st)) = [Query_deleted_documents] \<or>
       trace (snd (scrubDeletedCoreDocumentVersionsCheck cfg sched st)) = [Query_deleted_documents, Report_success []]"
    using a e by (simp add: run_unfold emit_def logger_info_def)
  show "documents (snd (scrubDeletedCoreDocumentVersionsCheck cfg sched st)) = documents st"
    using a e by (simp add: run_unfold emit_def logger_info_def)
  show "bucket (snd (scrubDeletedCoreDocumentVersionsCheck cfg sched st)) = bucket st"
    using a e by (simp add: run_unfold emit_def logger_info_def)
  assume b: "\<not> fetch_fails cfg \<and> deletedDocuments st \<noteq> []"
  show "fst (scrubDeletedCoreDocumentVersionsCheck cfg sched st) =
           Inl (Env_not_defined (if falsy (DUST_DATA_SOURCES_BUCKET cfg) then ''DUST_DATA_SOURCES_BUCKET''
                                 else ''SERVICE_ACCOUNT''))"
    using a b e by (simp add: run_unfold env_error_def)
  show "trace (snd (scrubDeletedCoreDocumentVersionsCheck cfg sched st)) = [Query_deleted_documents]"
    using a b e by (simp add: run_unfold)
qed

theorem missing_configuration_witness:
  "falsy (CORE_DATABASE_URI cfg_no_uri) \<and>
   fst (scrubDeletedCoreDocumentVersionsCheck cfg_no_uri no_picks st_one) =
     Inl (Env_not_defined ''CORE_DATABASE_URI'') \<and>
   trace (snd (scrubDeletedCoreDocumentVersionsCheck cfg_no_uri no_picks st_one)) = [] \<and>
   \<not> falsy (CORE_DATABASE_URI cfg_no_bucket) \<and> falsy (DUST_DATA_SOURCES_BUCKET cfg_no_bucket) \<and>
   \<not> fetch_fails cfg_no_bucket \<and> deletedDocuments st_one \<noteq> [] \<and>
   fst (scrubDeletedCoreDocumentVersionsCheck cfg_no_bucket no_picks st_one) =
     Inl (Env_not_defined ''DUST_DATA_SOURCES_BUCKET'') \<and>
   trace (snd (scrubDeletedCoreDocumentVersionsCheck cfg_no_bucket no_picks st_one)) = [Query_deleted_documents] \<and>
   documents (snd (scrubDeletedCoreDocumentVersionsCheck cfg_no_bucket no_picks st_one)) = [rowA]"
proof -
  have a: "falsy (CORE_DATABASE_URI cfg_no_uri)"
    by (simp add: cfg_no_uri_def cfg_ok_def falsy_def)
  have b: "\<not> falsy (CORE_DATABASE_URI cfg_no_bucket)" "falsy (DUST_DATA_SOURCES_BUCKET cfg_no_bucket)"
    "\<not> fetch_fails cfg_no_bucket"
    by (simp_all add: cfg_no_bucket_def cfg_ok_def falsy_def)
  have c: "deletedDocuments st_one \<noteq> []" "documents st_one = [rowA]"
    by (simp_all add: deletedDocuments_def st_one_def store_def rowA_def version_def)
  from missing_configuration [of cfg_no_uri no_picks st_one]
    missing_configuration [of cfg_no_bucket no_picks st_one] a b c
  show ?thesis by simp
qed

text \<open>
  Without the bucket, the deleted candidates are fetched all the same.
\<close>

theorem missing_bucket_counterexample: "fst (scrubDeletedCoreDocumentVersionsCheck cfg_no_bucket no_picks st_one) =
     Inl (Env_not_defined ''DUST_DATA_SOURCES_BUCKET'') \<and>
   trace (snd (scrubDeletedCoreDocumentVersionsCheck cfg_no_bucket no_picks st_one)) = [Query_deleted_documents]"
  by code_simp



end
